theory Spec2Isabelle
  imports Complex_Main "HOL-Library.List_Lexorder" "HOL-Library.Char_ord" "HOL-Library.Multiset"
    "HOL-Library.Log_Nat"
begin

section \<open>Python values used by app.py\<close>

text \<open>
  The program is the Python module \<^verbatim>\<open>app.py\<close> (holiday-house expense splitter).
  Its numbers are Python \<^verbatim>\<open>int\<close> (unbounded, modelled by \<^typ>\<open>int\<close>) and Python
  \<^verbatim>\<open>float\<close>, an IEEE-754 binary64 number. A float is modelled by \<open>pyfloat\<close>: a
  finite value carried as the rational number it denotes, or one of the three
  special values \<^verbatim>\<open>inf\<close>, \<^verbatim>\<open>-inf\<close>, \<^verbatim>\<open>nan\<close>, which the program can read from its
  input (\<^verbatim>\<open>float("inf")\<close>, \<^verbatim>\<open>float("nan")\<close> succeed).

  Every arithmetic operation on finite values computes the exact result and rounds
  it to the nearest double, ties to the even significand (\<open>round_double\<close>); a result
  that rounds beyond the largest double becomes \<^verbatim>\<open>inf\<close>. The special values follow
  IEEE-754 as Python exposes it: \<^verbatim>\<open>inf - inf\<close> and \<^verbatim>\<open>0 * inf\<close> are \<^verbatim>\<open>nan\<close>, every
  ordering comparison with \<^verbatim>\<open>nan\<close> is false. The one thing left out is the sign of
  zero: \<^verbatim>\<open>-0.0\<close> and \<^verbatim>\<open>0.0\<close> are both \<open>Fin 0\<close>; they compare equal, and the program
  never divides by a float zero, so only the printed sign of a zero is lost.
\<close>

datatype pyfloat = Fin rat | PInf | NInf | NaN

subsection \<open>Rounding to binary64\<close>

text \<open>\<open>pow2 e\<close> is \<open>2\<^sup>e\<close> for an integer exponent.\<close>

definition pow2 :: "int \<Rightarrow> rat" where
  "pow2 e = (if 0 \<le> e then 2 ^ nat e else 1 / 2 ^ nat (- e))"

text \<open>
  The binary exponent of a positive rational: \<open>2\<^sup>e \<le> q < 2\<^sup>e\<^sup>+\<^sup>1\<close> for \<open>e = expo q\<close>
  (lemma \<open>expo_bounds\<close>). It is computed from the bit lengths of numerator and
  denominator, which fix it up to one.
\<close>

definition expo :: "rat \<Rightarrow> int" where
  "expo q = (let (a, b) = quotient_of q; e0 = bitlen a - bitlen b
             in if pow2 e0 \<le> q then e0 else e0 - 1)"

text \<open>Rounding to the nearest integer, a tie to the even one.\<close>

definition round_half_even :: "rat \<Rightarrow> int" where
  "round_half_even x =
     (let f = \<lfloor>x\<rfloor>; d = x - of_int f
      in if d < 1 / 2 then f else if 1 / 2 < d then f + 1 else if even f then f else f + 1)"

text \<open>
  A positive rational is rounded to a multiple of the unit in the last place of its
  binade: the significand has 53 bits, the exponent of a normal number is at least
  \<open>-1022\<close>, below that the unit stays \<open>2\<^sup>-\<^sup>1\<^sup>0\<^sup>7\<^sup>4\<close> (subnormal numbers). A result of
  \<open>2\<^sup>1\<^sup>0\<^sup>2\<^sup>4\<close> or more overflows.
\<close>

definition round_pos :: "rat \<Rightarrow> pyfloat" where
  "round_pos q =
     (let e = max (expo q) (- 1022); ulp = pow2 (e - 52);
          r = of_int (round_half_even (q / ulp)) * ulp
      in if pow2 1024 \<le> r then PInf else Fin r)"

fun fneg :: "pyfloat \<Rightarrow> pyfloat" where
  "fneg (Fin q) = Fin (- q)"
| "fneg PInf = NInf"
| "fneg NInf = PInf"
| "fneg NaN = NaN"

definition round_double :: "rat \<Rightarrow> pyfloat" where
  "round_double q =
     (if q = 0 then Fin 0 else if 0 < q then round_pos q else fneg (round_pos (- q)))"

subsection \<open>Float operations\<close>

fun fadd :: "pyfloat \<Rightarrow> pyfloat \<Rightarrow> pyfloat" where
  "fadd (Fin a) (Fin b) = round_double (a + b)"
| "fadd (Fin a) PInf = PInf"
| "fadd (Fin a) NInf = NInf"
| "fadd (Fin a) NaN = NaN"
| "fadd PInf (Fin b) = PInf"
| "fadd PInf PInf = PInf"
| "fadd PInf NInf = NaN"
| "fadd PInf NaN = NaN"
| "fadd NInf (Fin b) = NInf"
| "fadd NInf PInf = NaN"
| "fadd NInf NInf = NInf"
| "fadd NInf NaN = NaN"
| "fadd NaN b = NaN"

definition fsub :: "pyfloat \<Rightarrow> pyfloat \<Rightarrow> pyfloat" where
  "fsub a b = fadd a (fneg b)"

fun fmul :: "pyfloat \<Rightarrow> pyfloat \<Rightarrow> pyfloat" where
  "fmul (Fin a) (Fin b) = round_double (a * b)"
| "fmul (Fin a) PInf = (if a = 0 then NaN else if 0 < a then PInf else NInf)"
| "fmul (Fin a) NInf = (if a = 0 then NaN else if 0 < a then NInf else PInf)"
| "fmul (Fin a) NaN = NaN"
| "fmul PInf (Fin b) = (if b = 0 then NaN else if 0 < b then PInf else NInf)"
| "fmul PInf PInf = PInf"
| "fmul PInf NInf = NInf"
| "fmul PInf NaN = NaN"
| "fmul NInf (Fin b) = (if b = 0 then NaN else if 0 < b then NInf else PInf)"
| "fmul NInf PInf = NInf"
| "fmul NInf NInf = PInf"
| "fmul NInf NaN = NaN"
| "fmul NaN b = NaN"

text \<open>\<^verbatim>\<open>a / b\<close> for a float \<open>b\<close> that is not zero (the caller has raised otherwise).\<close>

fun fdiv :: "pyfloat \<Rightarrow> pyfloat \<Rightarrow> pyfloat" where
  "fdiv (Fin a) (Fin b) = round_double (a / b)"
| "fdiv (Fin a) PInf = Fin 0"
| "fdiv (Fin a) NInf = Fin 0"
| "fdiv (Fin a) NaN = NaN"
| "fdiv PInf (Fin b) = (if 0 < b then PInf else NInf)"
| "fdiv PInf PInf = NaN"
| "fdiv PInf NInf = NaN"
| "fdiv PInf NaN = NaN"
| "fdiv NInf (Fin b) = (if 0 < b then NInf else PInf)"
| "fdiv NInf PInf = NaN"
| "fdiv NInf NInf = NaN"
| "fdiv NInf NaN = NaN"
| "fdiv NaN b = NaN"

text \<open>\<^verbatim>\<open>a < b\<close> on floats; \<^verbatim>\<open>a > b\<close> is \<^verbatim>\<open>b < a\<close>.\<close>

fun flt :: "pyfloat \<Rightarrow> pyfloat \<Rightarrow> bool" where
  "flt (Fin a) (Fin b) = (a < b)"
| "flt (Fin a) PInf = True"
| "flt (Fin a) NInf = False"
| "flt (Fin a) NaN = False"
| "flt PInf b = False"
| "flt NInf (Fin b) = True"
| "flt NInf PInf = True"
| "flt NInf NInf = False"
| "flt NInf NaN = False"
| "flt NaN b = False"

definition fgt :: "pyfloat \<Rightarrow> pyfloat \<Rightarrow> bool" where
  "fgt a b = flt b a"

text \<open>
  The builtin \<^verbatim>\<open>min(a, b)\<close> keeps its first argument unless the second is
  strictly smaller, so \<^verbatim>\<open>min(nan, x)\<close> is \<^verbatim>\<open>nan\<close> and \<^verbatim>\<open>min(x, nan)\<close> is \<^verbatim>\<open>x\<close>.
\<close>

definition py_min :: "pyfloat \<Rightarrow> pyfloat \<Rightarrow> pyfloat" where
  "py_min a b = (if flt b a then b else a)"

text \<open>
  The literal \<^verbatim>\<open>0.01\<close> of the source: the double nearest to \<open>1/100\<close>, which is
  \<open>5764607523034235 / 2\<^sup>5\<^sup>9\<close>, a little above \<open>1/100\<close> (lemma \<open>tol_literal\<close>).
\<close>

definition tol :: pyfloat where
  "tol = Fin (5764607523034235 / 576460752303423488)"

subsection \<open>Integers in float arithmetic\<close>

text \<open>
  The exceptions that can arise inside the \<^verbatim>\<open>try\<close> block of the calculation.
  \<^verbatim>\<open>member_to_family[member]\<close> raises \<^verbatim>\<open>KeyError\<close> for an absent key, a division
  by zero raises \<^verbatim>\<open>ZeroDivisionError\<close>, and the conversion of an integer too large
  for a float raises \<^verbatim>\<open>OverflowError\<close>.
\<close>

datatype py_exception = KeyError string | ZeroDivisionError | OverflowError

text \<open>
  Arithmetic between an \<^verbatim>\<open>int\<close> and a \<^verbatim>\<open>float\<close> converts the integer first. The
  conversion rounds to the nearest double and raises \<^verbatim>\<open>OverflowError\<close> where that
  would be infinite.
\<close>

definition float_of_int :: "int \<Rightarrow> py_exception + pyfloat" where
  "float_of_int n =
     (case round_double (of_int n) of
        Fin r \<Rightarrow> Inr (Fin r)
      | PInf \<Rightarrow> Inl OverflowError
      | NInf \<Rightarrow> Inl OverflowError
      | NaN \<Rightarrow> Inl OverflowError)"

text \<open>\<^verbatim>\<open>n * x\<close> for an \<^verbatim>\<open>int\<close> \<open>n\<close> and a \<^verbatim>\<open>float\<close> \<open>x\<close>.\<close>

definition fmul_int :: "int \<Rightarrow> pyfloat \<Rightarrow> py_exception + pyfloat" where
  "fmul_int n x =
     (case float_of_int n of
        Inl e \<Rightarrow> Inl e
      | Inr f \<Rightarrow> Inr (fmul f x))"

text \<open>
  \<^verbatim>\<open>x / n\<close> for a \<^verbatim>\<open>float\<close> \<open>x\<close> and an \<^verbatim>\<open>int\<close> \<open>n\<close>: the integer is converted, a zero
  divisor raises \<^verbatim>\<open>ZeroDivisionError\<close>.
\<close>

definition fdiv_int :: "pyfloat \<Rightarrow> int \<Rightarrow> py_exception + pyfloat" where
  "fdiv_int x n =
     (case float_of_int n of
        Inl e \<Rightarrow> Inl e
      | Inr d \<Rightarrow> if d = Fin 0 then Inl ZeroDivisionError else Inr (fdiv x d))"

text \<open>
  \<^verbatim>\<open>sum\<close> starts from the integer 0 and adds the items from left to right; the
  first addition converts the 0 and returns the first item, all later ones are
  float additions (CPython 3.11; later versions carry a compensation term). On no
  item at all the result is the integer 0, here \<open>Fin 0\<close>.
\<close>

definition py_sum :: "pyfloat list \<Rightarrow> pyfloat" where
  "py_sum xs = foldl fadd (Fin 0) xs"

section \<open>calculate_settlements\<close>

text \<open>
  \<^verbatim>\<open>balances\<close> is a \<^verbatim>\<open>dict[str, float]\<close>: an association list in insertion order
  (the order \<^verbatim>\<open>balances.items()\<close> yields) with distinct keys. A debtor or creditor
  entry \<^verbatim>\<open>[family, amount]\<close> is a pair, a settlement \<^verbatim>\<open>(debtor, creditor, amount)\<close>
  a triple.
\<close>

type_synonym entry = "string \<times> pyfloat"
type_synonym transfer = "string \<times> string \<times> pyfloat"

text \<open>
  The first loop: \<^verbatim>\<open>if balance < -0.01: debtors.append([family, -balance])\<close>,
  \<^verbatim>\<open>elif balance > 0.01: creditors.append([family, balance])\<close>. The state is the
  pair of lists built so far.
\<close>

fun partition_balances :: "entry list \<Rightarrow> entry list \<times> entry list \<Rightarrow> entry list \<times> entry list" where
  "partition_balances [] (debtors, creditors) = (debtors, creditors)"
| "partition_balances ((family, balance) # rest) (debtors, creditors) =
     (if flt balance (fneg tol) then
        partition_balances rest (debtors @ [(family, fneg balance)], creditors)
      else if fgt balance tol then
        partition_balances rest (debtors, creditors @ [(family, balance)])
      else partition_balances rest (debtors, creditors))"

text \<open>
  \<^verbatim>\<open>debtors.sort(key=lambda x: (-x[1], x[0]))\<close>. Python compares the key tuples
  lexicographically: the first components decide unless they are equal, then the
  names decide. \<^verbatim>\<open>list.sort\<close> is stable; it is modelled by a stable insertion
  sort on the strict order of the keys.
\<close>

definition sort_key :: "entry \<Rightarrow> pyfloat \<times> string" where
  "sort_key x = (fneg (snd x), fst x)"

definition key_less :: "pyfloat \<times> string \<Rightarrow> pyfloat \<times> string \<Rightarrow> bool" where
  "key_less k1 k2 =
     (if fst k1 = fst k2 then snd k1 < snd k2 else flt (fst k1) (fst k2))"

fun insert_sorted :: "entry \<Rightarrow> entry list \<Rightarrow> entry list" where
  "insert_sorted x [] = [x]"
| "insert_sorted x (y # ys) =
     (if key_less (sort_key y) (sort_key x) then y # insert_sorted x ys else x # y # ys)"

definition py_sort :: "entry list \<Rightarrow> entry list" where
  "py_sort xs = foldr insert_sorted xs []"

text \<open>
  One pass through the body of \<^verbatim>\<open>while debtors and creditors\<close>. It is only run on
  two non-empty lists, so \<^verbatim>\<open>debtors[0]\<close> and \<^verbatim>\<open>creditors[0]\<close> exist; the updates
  \<^verbatim>\<open>debtors[0][1] -= amount\<close> are list updates at index 0 and \<^verbatim>\<open>pop(0)\<close> drops
  the head.
\<close>

definition settle_step ::
  "entry list \<times> entry list \<times> transfer list \<Rightarrow> entry list \<times> entry list \<times> transfer list" where
  "settle_step s =
     (case s of (debtors, creditors, settlements) \<Rightarrow>
        let debtor = fst (debtors ! 0); debt = snd (debtors ! 0);
            creditor = fst (creditors ! 0); credit = snd (creditors ! 0);
            amount = py_min debt credit;
            settlements1 =
              (if fgt amount tol then settlements @ [(debtor, creditor, amount)]
               else settlements);
            debtors1 = debtors[0 := (debtor, fsub (snd (debtors ! 0)) amount)];
            creditors1 = creditors[0 := (creditor, fsub (snd (creditors ! 0)) amount)];
            debtors2 = (if flt (snd (debtors1 ! 0)) tol then tl debtors1 else debtors1);
            creditors2 =
              (if flt (snd (creditors1 ! 0)) tol then tl creditors1 else creditors1)
        in (debtors2, creditors2, settlements1))"

text \<open>
  The loop itself. It need not terminate (see \<open>settle_loop_nan\<close> below), so the
  result is optional: \<open>None\<close> is a run that never leaves the loop.
\<close>

partial_function (option) settle_loop ::
  "entry list \<times> entry list \<times> transfer list \<Rightarrow> transfer list option" where
  "settle_loop s =
     (if fst s \<noteq> [] \<and> fst (snd s) \<noteq> [] then settle_loop (settle_step s)
      else Some (snd (snd s)))"

declare settle_loop.simps [code]

definition calculate_settlements :: "entry list \<Rightarrow> transfer list option" where
  "calculate_settlements balances =
     (let (debtors, creditors) = partition_balances balances ([], [])
      in settle_loop (py_sort debtors, py_sort creditors, []))"


section \<open>Strings and numbers read from text\<close>

text \<open>
  Text is a list of characters; the model covers ASCII input. \<^verbatim>\<open>str.strip()\<close>
  removes the white space of both ends (for ASCII: the codes 9 to 13 and 28 to 32),
  \<^verbatim>\<open>s.split(c)\<close> cuts at every occurrence of the one-character separator and always
  returns at least one part, \<^verbatim>\<open>s.split(c, 1)\<close> cuts at the first occurrence only.
\<close>

definition py_isspace :: "char \<Rightarrow> bool" where
  "py_isspace c = (let n = (of_char c :: nat) in (9 \<le> n \<and> n \<le> 13) \<or> (28 \<le> n \<and> n \<le> 32))"

definition py_strip :: "string \<Rightarrow> string" where
  "py_strip s = rev (dropWhile py_isspace (rev (dropWhile py_isspace s)))"

fun py_split :: "char \<Rightarrow> string \<Rightarrow> string list" where
  "py_split c [] = [[]]"
| "py_split c (x # xs) =
     (if x = c then [] # py_split c xs
      else (case py_split c xs of [] \<Rightarrow> [[x]] | p # ps \<Rightarrow> (x # p) # ps))"

definition py_split1 :: "char \<Rightarrow> string \<Rightarrow> string \<times> string" where
  "py_split1 c s = (takeWhile (\<lambda>x. x \<noteq> c) s, drop 1 (dropWhile (\<lambda>x. x \<noteq> c) s))"

text \<open>
  \<^verbatim>\<open>int(s)\<close> and \<^verbatim>\<open>float(s)\<close> raise \<^verbatim>\<open>ValueError\<close> (here \<open>None\<close>) unless the
  stripped text is, for \<^verbatim>\<open>int\<close>, an optional sign and a digit part, and for
  \<^verbatim>\<open>float\<close>, an optional sign and then \<^verbatim>\<open>inf\<close>, \<^verbatim>\<open>infinity\<close>, \<^verbatim>\<open>nan\<close> (in any case)
  or a decimal number with an optional exponent. A digit part is a run of digits in
  which single underscores may separate digits. \<^verbatim>\<open>int\<close> also raises
  \<^verbatim>\<open>ValueError\<close> for more than 4300 digits (the default of
  \<^verbatim>\<open>sys.get_int_max_str_digits()\<close>). \<^verbatim>\<open>float\<close> returns the double nearest to the
  decimal number written.
\<close>

definition is_digit :: "char \<Rightarrow> bool" where
  "is_digit c = (CHR ''0'' \<le> c \<and> c \<le> CHR ''9'')"

definition digit_val :: "char \<Rightarrow> nat" where
  "digit_val c = of_char c - 48"

text \<open>The value and the number of digits of a digit part whose first digits are read.\<close>

fun digitpart_from :: "nat \<times> nat \<Rightarrow> string \<Rightarrow> (nat \<times> nat) option" where
  "digitpart_from (v, k) [] = Some (v, k)"
| "digitpart_from (v, k) [c] =
     (if is_digit c then Some (10 * v + digit_val c, Suc k) else None)"
| "digitpart_from (v, k) (c # d # ds) =
     (if is_digit c then digitpart_from (10 * v + digit_val c, Suc k) (d # ds)
      else if c = CHR ''_'' \<and> is_digit d then digitpart_from (10 * v + digit_val d, Suc k) ds
      else None)"

definition digitpart :: "string \<Rightarrow> (nat \<times> nat) option" where
  "digitpart s =
     (case s of [] \<Rightarrow> None
      | c # cs \<Rightarrow> if is_digit c then digitpart_from (digit_val c, 1) cs else None)"

text \<open>The digit part of an \<^verbatim>\<open>int\<close>: at most 4300 digits.\<close>

definition int_digits :: "string \<Rightarrow> nat option" where
  "int_digits s =
     (case digitpart s of
        None \<Rightarrow> None
      | Some (v, k) \<Rightarrow> if k \<le> 4300 then Some v else None)"

definition py_int :: "string \<Rightarrow> int option" where
  "py_int s =
     (case py_strip s of [] \<Rightarrow> None
      | c # cs \<Rightarrow>
          if c = CHR ''-'' then map_option (\<lambda>v. - int v) (int_digits cs)
          else if c = CHR ''+'' then map_option int (int_digits cs)
          else map_option int (int_digits (c # cs)))"

definition to_lower :: "char \<Rightarrow> char" where
  "to_lower c = (if CHR ''A'' \<le> c \<and> c \<le> CHR ''Z'' then char_of (of_char c + (32::nat)) else c)"

text \<open>The number part \<^verbatim>\<open>[digits] "." digits | digits ["."]\<close>, as a rational.\<close>

definition py_number :: "string \<Rightarrow> rat option" where
  "py_number s =
     (if CHR ''.'' \<in> set s then
        (let (ip, fp) = py_split1 (CHR ''.'') s in
         if fp = [] then map_option (\<lambda>(v, k). of_nat v) (digitpart ip)
         else (case digitpart fp of None \<Rightarrow> None
               | Some (fv, fk) \<Rightarrow>
                   if ip = [] then Some (of_nat fv / 10 ^ fk)
                   else map_option (\<lambda>(v, k). of_nat v + of_nat fv / 10 ^ fk) (digitpart ip)))
      else map_option (\<lambda>(v, k). of_nat v) (digitpart s))"

text \<open>The exponent \<^verbatim>\<open>[sign] digits\<close>, as the power of ten it stands for.\<close>

definition py_exponent :: "string \<Rightarrow> rat option" where
  "py_exponent s =
     (case s of [] \<Rightarrow> None
      | c # cs \<Rightarrow>
          if c = CHR ''-'' then map_option (\<lambda>(v, k). 1 / 10 ^ v) (digitpart cs)
          else if c = CHR ''+'' then map_option (\<lambda>(v, k). 10 ^ v) (digitpart cs)
          else map_option (\<lambda>(v, k). 10 ^ v) (digitpart (c # cs)))"

definition py_absfloat :: "string \<Rightarrow> pyfloat option" where
  "py_absfloat s =
     (let l = map to_lower s in
      if l = ''inf'' \<or> l = ''infinity'' then Some PInf
      else if l = ''nan'' then Some NaN
      else if CHR ''e'' \<in> set l then
        (let (m, e) = py_split1 (CHR ''e'') l in
         case (py_number m, py_exponent e) of
           (Some q, Some p) \<Rightarrow> Some (round_double (q * p))
         | _ \<Rightarrow> None)
      else map_option round_double (py_number l))"

definition py_float :: "string \<Rightarrow> pyfloat option" where
  "py_float s =
     (case py_strip s of [] \<Rightarrow> None
      | c # cs \<Rightarrow>
          if c = CHR ''-'' then map_option fneg (py_absfloat cs)
          else if c = CHR ''+'' then py_absfloat cs
          else py_absfloat (c # cs))"

section \<open>Dictionaries\<close>

text \<open>
  A \<^verbatim>\<open>dict\<close> is an association list in insertion order with distinct keys:
  \<^verbatim>\<open>d[k] = v\<close> overwrites the value of a present key in place and appends an absent
  one, \<^verbatim>\<open>d.get(k, default)\<close> and \<^verbatim>\<open>d[k]\<close> on a \<^verbatim>\<open>defaultdict\<close> read with a default.
\<close>

fun dict_set :: "'k \<Rightarrow> 'v \<Rightarrow> ('k \<times> 'v) list \<Rightarrow> ('k \<times> 'v) list" where
  "dict_set k v [] = [(k, v)]"
| "dict_set k v ((k', v') # kvs) =
     (if k' = k then (k, v) # kvs else (k', v') # dict_set k v kvs)"

definition dict_get :: "('k \<times> 'v) list \<Rightarrow> 'k \<Rightarrow> 'v \<Rightarrow> 'v" where
  "dict_get d k dflt = (case map_of d k of None \<Rightarrow> dflt | Some v \<Rightarrow> v)"

section \<open>The record parsers\<close>

record stay =
  member_name :: string
  nights :: int

record expense =
  paid_by_family :: string
  expense_type :: string
  amount :: pyfloat
  description :: string

text \<open>The body of the loop over the members of one line of \<^verbatim>\<open>parse_families\<close>.\<close>

definition add_member :: "string \<Rightarrow> (string \<times> string) list \<Rightarrow> string \<Rightarrow> (string \<times> string) list" where
  "add_member family_name member_to_family member =
     (let member = py_strip member
      in if member \<noteq> [] then dict_set member family_name member_to_family
         else member_to_family)"

definition parse_families_line :: "(string \<times> string) list \<Rightarrow> string \<Rightarrow> (string \<times> string) list" where
  "parse_families_line member_to_family line =
     (let line = py_strip line in
      if line = [] \<or> CHR '':'' \<notin> set line then member_to_family
      else
        (let (family_name, members_str) = py_split1 (CHR '':'') line;
             family_name = py_strip family_name
         in foldl (add_member family_name) member_to_family (py_split (CHR '','') members_str)))"

definition parse_families :: "string \<Rightarrow> (string \<times> string) list" where
  "parse_families text = foldl parse_families_line [] (py_split (CHR 0x0A) (py_strip text))"

definition parse_stays_line :: "stay list \<Rightarrow> string \<Rightarrow> stay list" where
  "parse_stays_line stays line =
     (let line = py_strip line in
      if line = [] \<or> CHR '','' \<notin> set line then stays
      else
        (let parts = py_split (CHR '','') line in
         if length parts \<ge> 2 then
           (let member = py_strip (parts ! 0) in
            case py_int (py_strip (parts ! 1)) of
              None \<Rightarrow> stays
            | Some n \<Rightarrow> stays @ [\<lparr>member_name = member, nights = n\<rparr>])
         else stays))"

definition parse_stays :: "string \<Rightarrow> stay list" where
  "parse_stays text = foldl parse_stays_line [] (py_split (CHR 0x0A) (py_strip text))"

definition parse_expenses_line :: "expense list \<Rightarrow> string \<Rightarrow> expense list" where
  "parse_expenses_line expenses line =
     (let line = py_strip line in
      if line = [] \<or> CHR '','' \<notin> set line then expenses
      else
        (let parts = py_split (CHR '','') line in
         if length parts \<ge> 3 then
           (case py_float (py_strip (parts ! 2)) of
              None \<Rightarrow> expenses
            | Some a \<Rightarrow>
                expenses @
                [\<lparr>paid_by_family = py_strip (parts ! 0),
                  expense_type = py_strip (parts ! 1),
                  amount = a,
                  description = (if length parts > 3 then py_strip (parts ! 3) else [])\<rparr>])
         else expenses))"

definition parse_expenses :: "string \<Rightarrow> expense list" where
  "parse_expenses text = foldl parse_expenses_line [] (py_split (CHR 0x0A) (py_strip text))"


section \<open>The aggregators\<close>

text \<open>
  \<^verbatim>\<open>calculate_person_nights\<close>: \<^verbatim>\<open>family_nights\<close> is a \<^verbatim>\<open>defaultdict(int)\<close>, so
  \<^verbatim>\<open>family_nights[family] += nights\<close> reads 0 for a family not yet present.
\<close>

fun person_nights_loop ::
  "stay list \<Rightarrow> (string \<times> string) list \<Rightarrow> (string \<times> int) list \<Rightarrow> py_exception + (string \<times> int) list" where
  "person_nights_loop [] member_to_family family_nights = Inr family_nights"
| "person_nights_loop (stay # rest) member_to_family family_nights =
     (let member = member_name stay; n = nights stay
      in case map_of member_to_family member of
           None \<Rightarrow> Inl (KeyError member)
         | Some family \<Rightarrow>
             person_nights_loop rest member_to_family
               (dict_set family (dict_get family_nights family 0 + n) family_nights))"

definition calculate_person_nights ::
  "stay list \<Rightarrow> (string \<times> string) list \<Rightarrow> py_exception + (string \<times> int) list" where
  "calculate_person_nights stays member_to_family = person_nights_loop stays member_to_family []"

text \<open>\<^verbatim>\<open>calculate_family_payments\<close>: a \<^verbatim>\<open>defaultdict(float)\<close>, default \<^verbatim>\<open>0.0\<close>.\<close>

definition add_payment :: "(string \<times> pyfloat) list \<Rightarrow> expense \<Rightarrow> (string \<times> pyfloat) list" where
  "add_payment payments e =
     dict_set (paid_by_family e)
       (fadd (dict_get payments (paid_by_family e) (Fin 0)) (amount e)) payments"

definition calculate_family_payments :: "expense list \<Rightarrow> (string \<times> pyfloat) list" where
  "calculate_family_payments expenses = foldl add_payment [] expenses"

section \<open>The calculation cycle\<close>

text \<open>
  What is stored in \<^verbatim>\<open>st.session_state['results']\<close> (the three parsed inputs are
  stored with it unchanged and are left out here).
\<close>

record results =
  family_nights :: "(string \<times> int) list"
  family_payments :: "(string \<times> pyfloat) list"
  total_expenses :: pyfloat
  total_nights :: int
  cost_per_night :: pyfloat
  balances :: "(string \<times> pyfloat) list"
  settlements :: "transfer list"
  all_families :: "string list"

text \<open>
  The ways one pass through \<^verbatim>\<open>if calculate_clicked:\<close> can end:
  \<^item> \<open>NotRun\<close>: one of the three text areas is empty, nothing is done or shown;
  \<^item> \<open>UnknownMembers\<close>: \<^verbatim>\<open>st.error("Unknown member(s) in Stays: ...")\<close> with the
    joined list \<^verbatim>\<open>unknown_members\<close>, stored results deleted, \<^verbatim>\<open>st.stop()\<close>;
  \<^item> \<open>UnknownFamilies\<close>: \<^verbatim>\<open>st.error("Unknown family/families in Expenses: ...")\<close>
    with the joined \<^verbatim>\<open>set(unknown_families)\<close>, stored results deleted, \<^verbatim>\<open>st.stop()\<close>;
  \<^item> \<open>ProcessingError\<close>: the handler \<^verbatim>\<open>except Exception as e\<close>, which shows
    \<^verbatim>\<open>"Error processing data: {e}"\<close> and deletes the stored results;
  \<^item> \<open>Results\<close>: the results are stored.

  \<^verbatim>\<open>st.stop()\<close> ends the run of the script; the exception it raises is not an
  \<^verbatim>\<open>Exception\<close>, so the handler of the \<^verbatim>\<open>try\<close> block does not see it.
\<close>

datatype outcome =
    NotRun
  | UnknownMembers "string list"
  | UnknownFamilies "string set"
  | ProcessingError py_exception
  | Results results

definition find_unknown_members :: "(string \<times> string) list \<Rightarrow> stay list \<Rightarrow> string list" where
  "find_unknown_members member_to_family stays =
     (let known_members = set (map fst member_to_family)
      in foldl (\<lambda>unknown_members stay.
                  if member_name stay \<notin> known_members
                  then unknown_members @ [member_name stay] else unknown_members)
           [] stays)"

definition find_unknown_families :: "(string \<times> string) list \<Rightarrow> expense list \<Rightarrow> string list" where
  "find_unknown_families member_to_family expenses =
     (let known_families = set (map snd member_to_family)
      in foldl (\<lambda>unknown_families e.
                  if paid_by_family e \<notin> known_families
                  then unknown_families @ [paid_by_family e] else unknown_families)
           [] expenses)"

text \<open>
  \<^verbatim>\<open>cost_per_night = total_expenses / total_nights\<close>. With no expense record the
  total is the integer 0 and the division is one of integers: it raises for the
  divisor 0 and is \<^verbatim>\<open>0.0\<close> otherwise, whatever the size of the divisor. Otherwise
  the total is a float and the divisor is converted.
\<close>

definition cost_per_night_of :: "expense list \<Rightarrow> int \<Rightarrow> py_exception + pyfloat" where
  "cost_per_night_of expenses tnights =
     (if expenses = [] then (if tnights = 0 then Inl ZeroDivisionError else Inr (Fin 0))
      else fdiv_int (py_sum (map amount expenses)) tnights)"

text \<open>
  The loop \<^verbatim>\<open>for family in all_families\<close>; \<^verbatim>\<open>family_payments.get(family, 0)\<close>
  returns the integer 0 for a family without payment, which the subtraction
  converts. \<^verbatim>\<open>all_families\<close> is a Python set, iterated in an order the language
  leaves open; the model lists the keys of \<^verbatim>\<open>family_nights\<close>, then the new keys of
  \<^verbatim>\<open>family_payments\<close>. The transfers are the same for every order
  (\<open>calculate_settlements_order\<close> below).
\<close>

fun compute_balances ::
  "(string \<times> int) list \<Rightarrow> (string \<times> pyfloat) list \<Rightarrow> pyfloat \<Rightarrow> string list \<Rightarrow>
   py_exception + (string \<times> pyfloat) list" where
  "compute_balances fam_nights fam_payments cost [] = Inr []"
| "compute_balances fam_nights fam_payments cost (family # rest) =
     (let n = dict_get fam_nights family 0;
          paid = dict_get fam_payments family (Fin 0)
      in case fmul_int n cost of
           Inl e \<Rightarrow> Inl e
         | Inr owes \<Rightarrow>
             (case compute_balances fam_nights fam_payments cost rest of
                Inl e \<Rightarrow> Inl e
              | Inr bals \<Rightarrow> Inr ((family, fsub paid owes) # bals)))"

text \<open>
  The \<^verbatim>\<open>try\<close> block on the parsed inputs. \<open>None\<close> is a cycle that never returns
  (the loop of \<^verbatim>\<open>calculate_settlements\<close> runs forever).
\<close>

definition calculate ::
  "(string \<times> string) list \<Rightarrow> stay list \<Rightarrow> expense list \<Rightarrow> outcome option" where
  "calculate member_to_family stays expenses =
     (let unknown_members = find_unknown_members member_to_family stays in
      if unknown_members \<noteq> [] then Some (UnknownMembers unknown_members)
      else
        let unknown_families = find_unknown_families member_to_family expenses in
        if unknown_families \<noteq> [] then Some (UnknownFamilies (set unknown_families))
        else
          (case calculate_person_nights stays member_to_family of
             Inl e \<Rightarrow> Some (ProcessingError e)
           | Inr fam_nights \<Rightarrow>
               let fam_payments = calculate_family_payments expenses;
                   total = py_sum (map amount expenses);
                   tnights = sum_list (map snd fam_nights)
               in (case cost_per_night_of expenses tnights of
                     Inl e \<Rightarrow> Some (ProcessingError e)
                   | Inr cost \<Rightarrow>
                       let families = remdups (map fst fam_nights @ map fst fam_payments)
                       in (case compute_balances fam_nights fam_payments cost families of
                             Inl e \<Rightarrow> Some (ProcessingError e)
                           | Inr bals \<Rightarrow>
                               (case calculate_settlements bals of
                                  None \<Rightarrow> None
                                | Some transfers \<Rightarrow>
                                    Some (Results
                                      \<lparr>family_nights = fam_nights,
                                        family_payments = fam_payments,
                                        total_expenses = total,
                                        total_nights = tnights,
                                        cost_per_night = cost,
                                        balances = bals,
                                        settlements = transfers,
                                        all_families = families\<rparr>))))))"

text \<open>The whole block, from the three text areas.\<close>

definition calculate_clicked :: "string \<Rightarrow> string \<Rightarrow> string \<Rightarrow> outcome option" where
  "calculate_clicked families_data stays_data expenses_data =
     (if families_data \<noteq> [] \<and> stays_data \<noteq> [] \<and> expenses_data \<noteq> [] then
        calculate (parse_families families_data) (parse_stays stays_data)
          (parse_expenses expenses_data)
      else Some NotRun)"


section \<open>Notions used to state the properties\<close>

text \<open>A float is finite; its value as a rational (0 for the special values).\<close>

fun is_fin :: "pyfloat \<Rightarrow> bool" where
  "is_fin (Fin q) = True"
| "is_fin PInf = False"
| "is_fin NInf = False"
| "is_fin NaN = False"

fun the_rat :: "pyfloat \<Rightarrow> rat" where
  "the_rat (Fin q) = q"
| "the_rat PInf = 0"
| "the_rat NInf = 0"
| "the_rat NaN = 0"

text \<open>\<^verbatim>\<open>abs(x) <= 0.01\<close>: within 0.01 of zero. It is false of \<^verbatim>\<open>nan\<close> and \<^verbatim>\<open>inf\<close>.\<close>

fun near_zero :: "pyfloat \<Rightarrow> bool" where
  "near_zero (Fin q) = (\<bar>q\<bar> \<le> the_rat tol)"
| "near_zero PInf = False"
| "near_zero NInf = False"
| "near_zero NaN = False"

text \<open>\<^verbatim>\<open>x >= 0\<close>.\<close>

fun fge0 :: "pyfloat \<Rightarrow> bool" where
  "fge0 (Fin q) = (0 \<le> q)"
| "fge0 PInf = True"
| "fge0 NInf = False"
| "fge0 NaN = False"

text \<open>The families of a balance mapping whose balance lies outside \<open>\<plusminus>0.01\<close>.\<close>

definition outside_tol :: "entry \<Rightarrow> bool" where
  "outside_tol e = (flt (snd e) (fneg tol) \<or> fgt (snd e) tol)"

definition count_outside :: "entry list \<Rightarrow> nat" where
  "count_outside bs = length (filter outside_tol bs)"

text \<open>
  Applying transfers to a balance mapping, in float arithmetic, transfer after
  transfer. \<open>apply_stated\<close> subtracts the amount from the payer's balance and adds it
  to the payee's; \<open>apply_paid\<close> does the opposite: the payer's balance (paid minus
  owed) rises by what it pays, the payee's falls.
\<close>

definition dict_add :: "string \<Rightarrow> pyfloat \<Rightarrow> entry list \<Rightarrow> entry list" where
  "dict_add f d bs = map (\<lambda>e. if fst e = f then (fst e, fadd (snd e) d) else e) bs"

definition apply_stated :: "entry list \<Rightarrow> transfer list \<Rightarrow> entry list" where
  "apply_stated bs ts =
     foldl (\<lambda>b t. dict_add (fst (snd t)) (snd (snd t)) (dict_add (fst t) (fneg (snd (snd t))) b)) bs ts"

definition apply_paid :: "entry list \<Rightarrow> transfer list \<Rightarrow> entry list" where
  "apply_paid bs ts =
     foldl (\<lambda>b t. dict_add (fst (snd t)) (fneg (snd (snd t))) (dict_add (fst t) (snd (snd t)) b)) bs ts"

text \<open>
  A balance \<open>b\<close> has moved to \<open>b'\<close> toward zero without crossing it: a negative
  balance ends in \<open>[b, 0]\<close>, a positive one in \<open>[0, b]\<close>, a zero balance stays.
\<close>

fun toward_zero :: "pyfloat \<Rightarrow> pyfloat \<Rightarrow> bool" where
  "toward_zero (Fin b) (Fin b') =
     (if b < 0 then b \<le> b' \<and> b' \<le> 0 else 0 \<le> b' \<and> b' \<le> b)"
| "toward_zero (Fin b) PInf = False"
| "toward_zero (Fin b) NInf = False"
| "toward_zero (Fin b) NaN = False"
| "toward_zero PInf b' = False"
| "toward_zero NInf b' = False"
| "toward_zero NaN b' = False"

definition moved_toward_zero :: "entry \<Rightarrow> entry \<Rightarrow> bool" where
  "moved_toward_zero e e' = (fst e' = fst e \<and> toward_zero (snd e) (snd e'))"

text \<open>A float is a whole number that a double holds exactly.\<close>

fun whole :: "pyfloat \<Rightarrow> bool" where
  "whole (Fin q) = (q = of_int \<lfloor>q\<rfloor> \<and> \<bar>q\<bar> < 2 ^ 53)"
| "whole PInf = False"
| "whole NInf = False"
| "whole NaN = False"

text \<open>The sum of the balances of a mapping, as a rational number.\<close>

definition balance_sum :: "entry list \<Rightarrow> rat" where
  "balance_sum bs = sum_list (map (\<lambda>e. the_rat (snd e)) bs)"

text \<open>What a family has paid and received in a list of transfers.\<close>

definition paid_in :: "transfer list \<Rightarrow> string \<Rightarrow> rat" where
  "paid_in ts f = sum_list (map (\<lambda>t. if fst t = f then the_rat (snd (snd t)) else 0) ts)"

definition received_in :: "transfer list \<Rightarrow> string \<Rightarrow> rat" where
  "received_in ts f = sum_list (map (\<lambda>t. if fst (snd t) = f then the_rat (snd (snd t)) else 0) ts)"

text \<open>What is left to settle for a family in a debtor or creditor list.\<close>

definition left_in :: "entry list \<Rightarrow> string \<Rightarrow> rat" where
  "left_in xs f = sum_list (map (\<lambda>e. if fst e = f then the_rat (snd e) else 0) xs)"

text \<open>
  Debtor or creditor entries that are whole numbers of at least 1, transfers whose
  amounts are whole numbers, and the total moved by a list of transfers.
\<close>

definition whole_entries :: "entry list \<Rightarrow> bool" where
  "whole_entries xs = list_all (\<lambda>e. whole (snd e) \<and> 1 \<le> the_rat (snd e)) xs"

definition whole_amounts :: "transfer list \<Rightarrow> bool" where
  "whole_amounts ts = list_all (\<lambda>t. whole (snd (snd t)) \<and> 0 \<le> the_rat (snd (snd t))) ts"

definition amount_total :: "transfer list \<Rightarrow> rat" where
  "amount_total ts = sum_list (map (\<lambda>t. the_rat (snd (snd t))) ts)"

text \<open>
  Transfers stay within the bounds of a mapping when no family with a negative
  balance receives or pays more than it owes, and no other family pays or receives
  more than it is owed. Within these bounds every addition of the application of
  whole amounts is exact.
\<close>

definition within_bounds :: "entry list \<Rightarrow> transfer list \<Rightarrow> bool" where
  "within_bounds bs ts =
     (\<forall>e \<in> set bs.
        (the_rat (snd e) < 0 \<longrightarrow>
           received_in ts (fst e) = 0 \<and> paid_in ts (fst e) \<le> - the_rat (snd e)) \<and>
        (0 \<le> the_rat (snd e) \<longrightarrow>
           paid_in ts (fst e) = 0 \<and> received_in ts (fst e) \<le> the_rat (snd e)))"

text \<open>The debtors and the creditors of a balance mapping, by name.\<close>

definition is_debtor :: "entry list \<Rightarrow> string \<Rightarrow> bool" where
  "is_debtor bs f = list_ex (\<lambda>e. fst e = f \<and> flt (snd e) (fneg tol)) bs"

definition is_creditor :: "entry list \<Rightarrow> string \<Rightarrow> bool" where
  "is_creditor bs f = list_ex (\<lambda>e. fst e = f \<and> fgt (snd e) tol) bs"

section \<open>The settlement procedure as the specification words it\<close>

text \<open>
  Step 1 of the specified algorithm: debtors are the families with balance below
  \<open>-0.01\<close>, with debt \<open>-balance\<close>; creditors those with balance above \<open>0.01\<close>; the
  others are omitted.
\<close>

definition spec_debtors :: "entry list \<Rightarrow> entry list" where
  "spec_debtors bs = map (\<lambda>e. (fst e, fneg (snd e))) (filter (\<lambda>e. flt (snd e) (fneg tol)) bs)"

definition spec_creditors :: "entry list \<Rightarrow> entry list" where
  "spec_creditors bs = filter (\<lambda>e. fgt (snd e) tol) bs"

text \<open>
  Step 2: descending by amount, ties broken by ascending family name. \<open>spec_before x y\<close>
  says that \<open>x\<close> may stand before \<open>y\<close>.
\<close>

definition spec_before :: "entry \<Rightarrow> entry \<Rightarrow> bool" where
  "spec_before x y = (fgt (snd x) (snd y) \<or> (snd x = snd y \<and> fst x \<le> fst y))"

definition spec_sorted :: "entry list \<Rightarrow> bool" where
  "spec_sorted xs = sorted_wrt spec_before xs"

text \<open>
  Steps 3 and 4. The amount of a round is the minimum of debt and credit: the
  smaller of the two numbers in the order of the extended reals (\<open>spec_min\<close>, which
  is defined from that order and not from the program's \<^verbatim>\<open>min\<close>).
\<close>

fun spec_le :: "pyfloat \<Rightarrow> pyfloat \<Rightarrow> bool" where
  "spec_le (Fin a) (Fin b) = (a \<le> b)"
| "spec_le (Fin a) PInf = True"
| "spec_le (Fin a) NInf = False"
| "spec_le PInf (Fin b) = False"
| "spec_le PInf PInf = True"
| "spec_le PInf NInf = False"
| "spec_le NInf b = (b \<noteq> NaN)"
| "spec_le NaN b = False"
| "spec_le (Fin a) NaN = False"
| "spec_le PInf NaN = False"

definition spec_min :: "pyfloat \<Rightarrow> pyfloat \<Rightarrow> pyfloat" where
  "spec_min a b = (if spec_le a b then a else b)"

text \<open>
  While both lists are non-empty: take the two heads, let the amount be the minimum
  of debt and credit, emit a transfer if it exceeds 0.01, decrement both by the
  amount, and remove a head whose remainder is below 0.01; stop when a list is
  empty. \<open>spec_greedy_run (debtors, creditors, emitted) result\<close> is a run of this
  procedure.
\<close>

inductive spec_greedy_run :: "entry list \<times> entry list \<times> transfer list \<Rightarrow> transfer list \<Rightarrow> bool" where
  finished: "ds = [] \<or> cs = [] \<Longrightarrow> spec_greedy_run (ds, cs, out) out"
| round:
    "amt = spec_min debt credit \<Longrightarrow>
     out' = (if fgt amt tol then out @ [(d, c, amt)] else out) \<Longrightarrow>
     ds' = (if flt (fsub debt amt) tol then ds else (d, fsub debt amt) # ds) \<Longrightarrow>
     cs' = (if flt (fsub credit amt) tol then cs else (c, fsub credit amt) # cs) \<Longrightarrow>
     spec_greedy_run (ds', cs', out') result \<Longrightarrow>
     spec_greedy_run ((d, debt) # ds, (c, credit) # cs, out) result"

text \<open>The entries a run can still work on: finite and non-negative, or infinite.\<close>

definition open_entries :: "entry list \<Rightarrow> bool" where
  "open_entries xs = (\<forall>e \<in> set xs. fge0 (snd e))"


section \<open>Rounding\<close>

lemma pow2_powi: "pow2 e = 2 powi e"
  by (simp add: pow2_def power_int_def inverse_eq_divide power_one_over)

lemma pow2_pos: "0 < pow2 e"
  by (simp add: pow2_powi)

lemma pow2_add: "pow2 (a + b) = pow2 a * pow2 b"
  by (simp add: pow2_powi power_int_add)

lemma pow2_diff: "pow2 (a - b) = pow2 a / pow2 b"
  by (simp add: pow2_powi power_int_diff)

lemma pow2_mono: "a \<le> b \<Longrightarrow> pow2 a \<le> pow2 b"
  by (simp add: pow2_powi power_int_increasing)

lemma pow2_strict_mono: "a < b \<Longrightarrow> pow2 a < pow2 b"
  by (simp add: pow2_powi power_int_strict_increasing)

lemma pow2_less_iff: "pow2 a < pow2 b \<longleftrightarrow> a < b"
proof
  assume "pow2 a < pow2 b"
  show "a < b"
  proof (rule ccontr)
    assume "\<not> a < b"
    then have "pow2 b \<le> pow2 a" by (simp add: pow2_mono)
    with \<open>pow2 a < pow2 b\<close> show False by simp
  qed
qed (rule pow2_strict_mono)

lemma pow2_nat: "0 \<le> e \<Longrightarrow> pow2 e = 2 ^ nat e"
  by (simp add: pow2_def)

lemma pow2_Suc: "pow2 (e + 1) = 2 * pow2 e"
proof -
  have "pow2 1 = 2" by (simp add: pow2_def)
  then show ?thesis by (simp add: pow2_add)
qed

lemma expo_bounds:
  assumes "0 < q"
  shows "pow2 (expo q) \<le> q" "q < pow2 (expo q + 1)"
proof -
  obtain a b where ab: "quotient_of q = (a, b)" by (cases "quotient_of q")
  have b: "0 < b" using ab by (rule quotient_of_denom_pos)
  have q: "q = of_int a / of_int b" using ab by (rule quotient_of_div)
  have a: "0 < a" using assms b unfolding q by (simp add: zero_less_divide_iff)
  define la where "la = bitlen a"
  define lb where "lb = bitlen b"
  have la: "1 \<le> la" "2 ^ nat (la - 1) \<le> a" "a < 2 ^ nat la"
    using bitlen_bounds[OF a] a by (auto simp: la_def bitlen_alt_def)
  have lb: "1 \<le> lb" "2 ^ nat (lb - 1) \<le> b" "b < 2 ^ nat lb"
    using bitlen_bounds[OF b] b by (auto simp: lb_def bitlen_alt_def)
  have ra: "pow2 (la - 1) \<le> of_int a" "of_int a < pow2 la"
  proof -
    have "(of_int (2 ^ nat (la - 1)) :: rat) \<le> of_int a" using la(2) by (simp only: of_int_le_iff)
    then show "pow2 (la - 1) \<le> of_int a" using la(1) by (simp add: pow2_nat)
    have "(of_int a :: rat) < of_int (2 ^ nat la)" using la(3) by (simp only: of_int_less_iff)
    then show "of_int a < pow2 la" using la(1) by (simp add: pow2_nat)
  qed
  have rb: "pow2 (lb - 1) \<le> of_int b" "of_int b < pow2 lb"
  proof -
    have "(of_int (2 ^ nat (lb - 1)) :: rat) \<le> of_int b" using lb(2) by (simp only: of_int_le_iff)
    then show "pow2 (lb - 1) \<le> of_int b" using lb(1) by (simp add: pow2_nat)
    have "(of_int b :: rat) < of_int (2 ^ nat lb)" using lb(3) by (simp only: of_int_less_iff)
    then show "of_int b < pow2 lb" using lb(1) by (simp add: pow2_nat)
  qed
  have bpos: "(0::rat) < of_int b" using b by simp
  have apos: "(0::rat) < of_int a" using a by simp
  have up: "q < pow2 (la - lb + 1)"
  proof -
    have "of_int a * pow2 (lb - 1) < pow2 la * pow2 (lb - 1)"
      using ra(2) pow2_pos[of "lb - 1"] by simp
    also have "\<dots> \<le> pow2 la * of_int b"
      using rb(1) pow2_pos[of la] by simp
    finally have "of_int a * pow2 (lb - 1) < pow2 la * of_int b" .
    then have "of_int a / of_int b < pow2 la / pow2 (lb - 1)"
      using bpos pow2_pos[of "lb - 1"] by (simp add: field_simps)
    also have "\<dots> = pow2 (la - (lb - 1))" by (simp add: pow2_diff)
    finally show ?thesis by (simp add: q algebra_simps)
  qed
  have low: "pow2 (la - lb - 1) < q"
  proof -
    have "pow2 (la - 1) * of_int b < pow2 (la - 1) * pow2 lb"
      using rb(2) pow2_pos[of "la - 1"] by simp
    also have "\<dots> \<le> of_int a * pow2 lb"
      using ra(1) pow2_pos[of lb] by simp
    finally have "pow2 (la - 1) * of_int b < of_int a * pow2 lb" .
    then have "pow2 (la - 1) / pow2 lb < of_int a / of_int b"
      using bpos pow2_pos[of lb] by (simp add: field_simps)
    moreover have "pow2 (la - 1) / pow2 lb = pow2 (la - 1 - lb)" by (simp add: pow2_diff)
    ultimately show ?thesis by (simp add: q algebra_simps)
  qed
  have e: "expo q = (if pow2 (la - lb) \<le> q then la - lb else la - lb - 1)"
    by (simp add: expo_def ab la_def lb_def Let_def)
  show "pow2 (expo q) \<le> q"
    using low by (simp add: e less_imp_le)
  show "q < pow2 (expo q + 1)"
    using up by (auto simp: e not_le)
qed

lemma expo_unique:
  assumes "0 < q" "pow2 e \<le> q" "q < pow2 (e + 1)"
  shows "expo q = e"
proof -
  have "pow2 (expo q) < pow2 (e + 1)"
    using expo_bounds(1)[OF assms(1)] assms(3) by simp
  then have 1: "expo q < e + 1" by (simp add: pow2_less_iff)
  have "pow2 e < pow2 (expo q + 1)"
    using expo_bounds(2)[OF assms(1)] assms(2) by simp
  then have "e < expo q + 1" by (simp add: pow2_less_iff)
  with 1 show ?thesis by simp
qed

lemma rhe_bound: "\<bar>of_int (round_half_even x) - x\<bar> \<le> 1 / 2"
proof -
  have "of_int \<lfloor>x\<rfloor> \<le> x" "x < of_int \<lfloor>x\<rfloor> + 1" by linarith+
  then show ?thesis
    by (auto simp: round_half_even_def Let_def abs_le_iff)
qed

lemma rhe_unique: "\<bar>x - of_int m\<bar> < 1 / 2 \<Longrightarrow> round_half_even x = m"
proof -
  assume a: "\<bar>x - of_int m\<bar> < 1 / 2"
  have "\<bar>(of_int (round_half_even x) :: rat) - of_int m\<bar> < 1"
    using rhe_bound[of x] a by linarith
  then have "\<bar>(of_int (round_half_even x - m) :: rat)\<bar> < 1" by simp
  then have "\<bar>round_half_even x - m\<bar> < 1"
    by (metis of_int_abs of_int_less_1_iff)
  then show ?thesis by simp
qed

lemma rhe_of_int: "round_half_even (of_int n) = n"
  by (rule rhe_unique) simp

lemma rhe_le: "x \<le> of_int n \<Longrightarrow> round_half_even x \<le> n"
proof -
  assume a: "x \<le> of_int n"
  show ?thesis
  proof (cases "x = of_int n")
    case True
    then show ?thesis by (simp add: rhe_of_int)
  next
    case False
    with a have "x < of_int n" by simp
    then have "\<lfloor>x\<rfloor> < n" by (simp add: floor_less_iff)
    then show ?thesis by (auto simp: round_half_even_def Let_def)
  qed
qed

lemma rhe_ge: "of_int n \<le> x \<Longrightarrow> n \<le> round_half_even x"
proof -
  assume "of_int n \<le> x"
  then have "n \<le> \<lfloor>x\<rfloor>" by (simp add: le_floor_iff)
  then show ?thesis by (auto simp: round_half_even_def Let_def)
qed


lemma fneg_fneg: "fneg (fneg a) = a"
  by (cases a) auto

lemma round_pos_unfold:
  "round_pos q =
     (if pow2 1024 \<le> of_int (round_half_even (q / pow2 (max (expo q) (- 1022) - 52))) *
                       pow2 (max (expo q) (- 1022) - 52)
      then PInf
      else Fin (of_int (round_half_even (q / pow2 (max (expo q) (- 1022) - 52))) *
                       pow2 (max (expo q) (- 1022) - 52)))"
  by (simp add: round_pos_def Let_def)

lemma round_pos_nonneg: "0 < q \<Longrightarrow> fge0 (round_pos q)"
proof -
  assume "0 < q"
  then have "0 \<le> q / pow2 (max (expo q) (- 1022) - 52)"
    using pow2_pos[of "max (expo q) (- 1022) - 52"] by simp
  then have "(of_int 0 :: rat) \<le> q / pow2 (max (expo q) (- 1022) - 52)" by simp
  then have "0 \<le> round_half_even (q / pow2 (max (expo q) (- 1022) - 52))"
    by (rule rhe_ge)
  then show ?thesis
    using pow2_pos[of "max (expo q) (- 1022) - 52"]
    by (simp add: round_pos_unfold less_imp_le)
qed

lemma round_double_nonneg: "0 \<le> q \<Longrightarrow> fge0 (round_double q)"
  by (cases "q = 0") (simp_all add: round_double_def round_pos_nonneg)

lemma round_double_zero: "round_double 0 = Fin 0"
  by (simp add: round_double_def)

lemma round_double_minus: "round_double (- q) = fneg (round_double q)"
  by (cases "q = 0"; cases "0 < q") (auto simp: round_double_def fneg_fneg)

lemma round_pos_error:
  assumes "0 < q" "q < pow2 1023"
  shows "\<exists>r. round_pos q = Fin r \<and> 0 \<le> r \<and> r \<le> pow2 1023 \<and>
              \<bar>r - q\<bar> \<le> q / 2 ^ 53 + 1 / 2 ^ 1075"
proof -
  define e where "e = max (expo q) (- 1022)"
  define ulp where "ulp = pow2 (e - 52)"
  define m where "m = round_half_even (q / ulp)"
  define r where "r = of_int m * ulp"
  have ulp: "0 < ulp" by (simp add: ulp_def pow2_pos)
  have rp: "round_pos q = (if pow2 1024 \<le> r then PInf else Fin r)"
    by (simp add: round_pos_unfold r_def m_def ulp_def e_def)
  have "pow2 (expo q) < pow2 1023"
    using expo_bounds(1)[OF assms(1)] assms(2) by simp
  then have "expo q < 1023" by (simp add: pow2_less_iff)
  then have e: "e \<le> 1022" "expo q \<le> e" "- 1022 \<le> e" by (simp_all add: e_def)
  have "q < pow2 (e + 1)"
    using expo_bounds(2)[OF assms(1)] pow2_mono[of "expo q + 1" "e + 1"] e(2) by simp
  also have "\<dots> = pow2 53 * ulp"
  proof -
    have "e + 1 = 53 + (e - 52)" by simp
    then show ?thesis unfolding ulp_def by (simp only: pow2_add)
  qed
  finally have "q / ulp < pow2 53" using ulp by (simp add: field_simps)
  then have "q / ulp \<le> of_int (2 ^ 53)" by (simp add: pow2_def)
  then have m_le: "m \<le> 2 ^ 53" unfolding m_def by (rule rhe_le)
  have "(of_int 0 :: rat) \<le> q / ulp" using assms(1) ulp by simp
  then have m_ge: "0 \<le> m" unfolding m_def by (rule rhe_ge)
  have r0: "0 \<le> r" using m_ge ulp by (simp add: r_def)
  have "r \<le> of_int (2 ^ 53) * ulp"
    unfolding r_def using m_le ulp by (simp only: mult_le_cancel_right_pos of_int_le_iff)
  also have "\<dots> = pow2 (e + 1)"
  proof -
    have "e + 1 = 53 + (e - 52)" by simp
    then have "pow2 (e + 1) = pow2 53 * ulp" unfolding ulp_def by (simp only: pow2_add)
    then show ?thesis by (simp add: pow2_def[of 53])
  qed
  also have "\<dots> \<le> pow2 1023" using e(1) by (intro pow2_mono) simp
  finally have r_le: "r \<le> pow2 1023" .
  have "pow2 1023 < pow2 1024" by (simp add: pow2_less_iff)
  with r_le have fin: "round_pos q = Fin r" by (simp add: rp)
  have "\<bar>of_int m - q / ulp\<bar> \<le> 1 / 2" unfolding m_def by (rule rhe_bound)
  then have "\<bar>of_int m - q / ulp\<bar> * ulp \<le> 1 / 2 * ulp"
    using ulp by (simp only: mult_le_cancel_right_pos)
  moreover have "\<bar>of_int m - q / ulp\<bar> * ulp = \<bar>r - q\<bar>"
  proof -
    have "\<bar>of_int m - q / ulp\<bar> * ulp = \<bar>(of_int m - q / ulp) * ulp\<bar>"
      using ulp by (simp add: abs_mult)
    also have "(of_int m - q / ulp) * ulp = r - q"
      using ulp by (simp add: r_def field_simps)
    finally show ?thesis .
  qed
  ultimately have err: "\<bar>r - q\<bar> \<le> ulp / 2" by simp
  have "ulp / 2 \<le> q / 2 ^ 53 + 1 / 2 ^ 1075"
  proof (cases "- 1022 \<le> expo q")
    case True
    then have "e = expo q" by (simp add: e_def)
    then have "ulp = pow2 (expo q) / pow2 52" by (simp add: ulp_def pow2_diff)
    also have "\<dots> \<le> q / pow2 52"
      using expo_bounds(1)[OF assms(1)] pow2_pos[of 52] by (simp add: divide_right_mono)
    finally have "ulp / 2 \<le> q / pow2 52 / 2" by simp
    also have "\<dots> = q / 2 ^ 53" by (simp add: pow2_def)
    finally show ?thesis by simp
  next
    case False
    then have "e = - 1022" by (simp add: e_def)
    then have "ulp / 2 = 1 / 2 ^ 1075" by (simp add: ulp_def pow2_def)
    moreover have "0 \<le> q / 2 ^ 53" using assms(1) by simp
    ultimately show ?thesis by linarith
  qed
  with err have "\<bar>r - q\<bar> \<le> q / 2 ^ 53 + 1 / 2 ^ 1075" by linarith
  with fin r0 r_le show ?thesis by blast
qed

lemma round_double_error:
  assumes "\<bar>q\<bar> < pow2 1023"
  shows "\<exists>r. round_double q = Fin r \<and> \<bar>r\<bar> \<le> pow2 1023 \<and>
              (0 \<le> q \<longrightarrow> 0 \<le> r) \<and> (q \<le> 0 \<longrightarrow> r \<le> 0) \<and>
              \<bar>r - q\<bar> \<le> \<bar>q\<bar> / 2 ^ 53 + 1 / 2 ^ 1075"
proof -
  consider "q = 0" | "0 < q" | "q < 0" by linarith
  then show ?thesis
  proof cases
    case 1
    then show ?thesis using pow2_pos[of 1023] by (simp add: round_double_def less_imp_le)
  next
    case 2
    with assms have "q < pow2 1023" by simp
    from round_pos_error[OF 2 this] 2 show ?thesis
      by (auto simp: round_double_def)
  next
    case 3
    then have p: "0 < - q" by simp
    with assms have "- q < pow2 1023" by simp
    from round_pos_error[OF p this] obtain r where
      r: "round_pos (- q) = Fin r" "0 \<le> r" "r \<le> pow2 1023"
         "\<bar>r - (- q)\<bar> \<le> (- q) / 2 ^ 53 + 1 / 2 ^ 1075" by blast
    have "round_double q = Fin (- r)" using 3 r(1) by (simp add: round_double_def)
    moreover have "\<bar>- r - q\<bar> = \<bar>r - (- q)\<bar>" by simp
    moreover have "\<bar>q\<bar> = - q" using 3 by simp
    ultimately show ?thesis using r 3 by auto
  qed
qed

text \<open>A double rounds to itself.\<close>

lemma round_pos_exact:
  assumes "q = of_int m * pow2 k" "0 < m" "m < 2 ^ 53" "- 1074 \<le> k" "k \<le> 971"
  shows "round_pos q = Fin q"
proof -
  have q: "0 < q" using assms(1,2) pow2_pos[of k] by simp
  define e where "e = max (expo q) (- 1022)"
  define ulp where "ulp = pow2 (e - 52)"
  have ulp: "0 < ulp" by (simp add: ulp_def pow2_pos)
  have "(of_int m :: rat) < of_int (2 ^ 53)" using assms(3) by (simp only: of_int_less_iff)
  then have "of_int m * pow2 k < of_int (2 ^ 53) * pow2 k"
    using pow2_pos[of k] by (simp only: mult_less_cancel_right_pos)
  also have "\<dots> = pow2 (k + 53)" by (simp add: pow2_add pow2_def[of 53])
  finally have qlt: "q < pow2 (k + 53)" by (simp add: assms(1))
  then have "pow2 (expo q) < pow2 (k + 53)"
    using expo_bounds(1)[OF q] by simp
  then have "expo q < k + 53" by (simp add: pow2_less_iff)
  then have e: "e - 52 \<le> k" using assms(4) by (simp add: e_def)
  define j where "j = nat (k - (e - 52))"
  have "pow2 k = pow2 (int j + (e - 52))" using e by (simp add: j_def)
  also have "\<dots> = pow2 (int j) * ulp" unfolding ulp_def by (simp only: pow2_add)
  also have "pow2 (int j) = 2 ^ j" by (simp add: pow2_def)
  finally have k: "pow2 k = 2 ^ j * ulp" .
  have "q / ulp = of_int (m * 2 ^ j)"
    using ulp by (simp add: assms(1) k)
  then have "round_half_even (q / ulp) = m * 2 ^ j" by (simp only: rhe_of_int)
  then have "of_int (round_half_even (q / ulp)) * ulp = q"
    by (simp add: assms(1) k)
  moreover have "q < pow2 1024"
    using qlt pow2_mono[of "k + 53" 1024] assms(5) by simp
  ultimately show ?thesis
    by (simp add: round_pos_unfold ulp_def e_def)
qed

lemma round_double_exact:
  assumes "q = of_int m * pow2 k" "\<bar>m\<bar> < 2 ^ 53" "- 1074 \<le> k" "k \<le> 971"
  shows "round_double q = Fin q"
proof -
  consider "m = 0" | "0 < m" | "m < 0" by linarith
  then show ?thesis
  proof cases
    case 1
    then show ?thesis by (simp add: assms(1) round_double_def)
  next
    case 2
    then have "0 < q" using pow2_pos[of k] by (simp add: assms(1))
    moreover have "round_pos q = Fin q"
      using assms 2 by (intro round_pos_exact[of q m k]) simp_all
    ultimately show ?thesis by (simp add: round_double_def)
  next
    case 3
    then have neg: "q < 0" using pow2_pos[of k] by (simp add: assms(1) mult_neg_pos)
    have "round_pos (- q) = Fin (- q)"
      using assms 3 by (intro round_pos_exact[of "- q" "- m" k]) simp_all
    with neg show ?thesis by (simp add: round_double_def)
  qed
qed

lemma round_double_int: "\<bar>n\<bar> < 2 ^ 53 \<Longrightarrow> round_double (of_int n) = Fin (of_int n)"
  by (rule round_double_exact[of _ n 0]) (simp_all add: pow2_def)


lemma round_double_bounded:
  assumes "0 \<le> q" "q \<le> pow2 1023"
  shows "\<exists>r. round_double q = Fin r \<and> 0 \<le> r \<and> r \<le> pow2 1023"
proof (cases "q = pow2 1023")
  case True
  have "round_double q = Fin q"
    by (rule round_double_exact[of _ "2 ^ 52" 971]) (simp_all add: True pow2_def)
  with assms show ?thesis by simp
next
  case False
  with assms have "\<bar>q\<bar> < pow2 1023" by simp
  from round_double_error[OF this] assms(1) show ?thesis by auto
qed

text \<open>How a given rational rounds, from its binade and the nearest multiple of the unit.\<close>

lemma round_double_eqI:
  assumes "0 < q" "pow2 e \<le> q" "q < pow2 (e + 1)" "- 1022 \<le> e"
    and "\<bar>q / pow2 (e - 52) - of_int m\<bar> < 1 / 2"
    and "of_int m * pow2 (e - 52) < pow2 1024"
  shows "round_double q = Fin (of_int m * pow2 (e - 52))"
proof -
  have e: "expo q = e" using assms(1-3) by (rule expo_unique)
  have "round_half_even (q / pow2 (e - 52)) = m" using assms(5) by (rule rhe_unique)
  then show ?thesis
    using assms(1,4,6) by (simp add: round_double_def round_pos_unfold e max_def)
qed

lemma tol_literal: "round_double (1 / 100) = tol"
proof -
  have "round_double (1 / 100) = Fin (of_int 5764607523034235 * pow2 (- 7 - 52))"
    by (rule round_double_eqI) (simp_all add: pow2_def)
  then show ?thesis by (simp add: tol_def pow2_def)
qed

lemma tol_pos: "0 < the_rat tol"
  by (simp add: tol_def)

section \<open>The settlement loop: one round, runs, divergence\<close>

lemma settle_step_Cons:
  "settle_step ((d, x) # ds, (c, y) # cs, out) =
     ((if flt (fsub x (py_min x y)) tol then ds else (d, fsub x (py_min x y)) # ds),
      (if flt (fsub y (py_min x y)) tol then cs else (c, fsub y (py_min x y)) # cs),
      (if fgt (py_min x y) tol then out @ [(d, c, py_min x y)] else out))"
  by (simp add: settle_step_def Let_def)

lemma settle_loop_stop:
  "ds = [] \<or> cs = [] \<Longrightarrow> settle_loop (ds, cs, out) = Some out"
  by (subst settle_loop.simps) auto

lemma settle_loop_Cons:
  "settle_loop ((d, x) # ds, (c, y) # cs, out) =
     settle_loop (settle_step ((d, x) # ds, (c, y) # cs, out))"
  by (subst settle_loop.simps) simp


lemma settle_step_nan:
  "settle_step ((d, NaN) # ds, (c, NaN) # cs, out) = ((d, NaN) # ds, (c, NaN) # cs, out)"
  by (simp add: settle_step_Cons py_min_def fsub_def fgt_def tol_def)

lemma settle_loop_nan_aux:
  assumes "settle_loop s = Some r"
  shows "\<not> (\<exists>d ds c cs out. s = ((d, NaN) # ds, (c, NaN) # cs, out))"
proof (rule settle_loop.raw_induct[where P = "\<lambda>s r. \<not> (\<exists>d ds c cs out. s = ((d, NaN) # ds, (c, NaN) # cs, out))", OF _ assms])
  fix f :: "entry list \<times> entry list \<times> transfer list \<Rightarrow> transfer list option"
  fix s r
  assume IH: "\<And>x y. f x = Some y \<Longrightarrow> \<not> (\<exists>d ds c cs out. x = ((d, NaN) # ds, (c, NaN) # cs, out))"
  assume eq: "(if fst s \<noteq> [] \<and> fst (snd s) \<noteq> [] then f (settle_step s) else Some (snd (snd s))) = Some r"
  show "\<not> (\<exists>d ds c cs out. s = ((d, NaN) # ds, (c, NaN) # cs, out))"
  proof
    assume "\<exists>d ds c cs out. s = ((d, NaN) # ds, (c, NaN) # cs, out)"
    then obtain d ds c cs out where s: "s = ((d, NaN) # ds, (c, NaN) # cs, out)" by blast
    with eq have "f s = Some r" by (simp add: settle_step_nan)
    from IH[OF this] s show False by blast
  qed
qed

lemma settle_loop_nan: "settle_loop ((d, NaN) # ds, (c, NaN) # cs, out) = None"
  using settle_loop_nan_aux[of "((d, NaN) # ds, (c, NaN) # cs, out)"]
  by (cases "settle_loop ((d, NaN) # ds, (c, NaN) # cs, out)") auto

lemma settle_loop_inf: "settle_loop ((d, PInf) # ds, (c, PInf) # cs, out) = None"
  by (subst settle_loop_Cons) (simp add: settle_step_Cons py_min_def fsub_def fgt_def tol_def settle_loop_nan)


section \<open>Partition, sorting and the number of rounds\<close>

subsection \<open>float comparisons\<close>

lemma flt_irrefl: "\<not> flt a a"
  by (cases a) auto

lemma flt_fneg: "flt (fneg a) (fneg b) = flt b a"
  by (cases a; cases b) auto

lemma fneg_inj: "fneg a = fneg b \<longleftrightarrow> a = b"
  by (cases a; cases b) auto

lemma flt_trans: "flt a b \<Longrightarrow> flt b c \<Longrightarrow> flt a c"
  by (cases a; cases b; cases c) auto

lemma flt_total: "a \<noteq> NaN \<Longrightarrow> b \<noteq> NaN \<Longrightarrow> flt a b \<or> a = b \<or> flt b a"
  by (cases a; cases b) auto

lemma flt_asym: "flt a b \<Longrightarrow> \<not> flt b a"
  by (cases a; cases b) auto

lemma debtor_not_creditor: "flt b (fneg tol) \<Longrightarrow> \<not> fgt b tol"
  by (cases b) (auto simp: tol_def fgt_def)

subsection \<open>partition\<close>

lemma partition_balances_spec:
  "partition_balances bs (ds, cs) = (ds @ spec_debtors bs, cs @ spec_creditors bs)"
proof (induction bs arbitrary: ds cs)
  case Nil
  show ?case by (simp add: spec_debtors_def spec_creditors_def)
next
  case (Cons e bs)
  obtain family balance where e: "e = (family, balance)" by (cases e)
  show ?case
    using debtor_not_creditor[of balance]
    by (auto simp: e Cons.IH spec_debtors_def spec_creditors_def)
qed

lemma spec_debtors_open: "open_entries (spec_debtors bs)"
proof -
  have "fge0 (fneg b)" if "flt b (fneg tol)" for b
    using that by (cases b) (auto simp: tol_def)
  then show ?thesis by (auto simp: open_entries_def spec_debtors_def)
qed

lemma spec_creditors_open: "open_entries (spec_creditors bs)"
proof -
  have "fge0 b" if "fgt b tol" for b
    using that by (cases b) (auto simp: tol_def fgt_def)
  then show ?thesis by (auto simp: open_entries_def spec_creditors_def)
qed

lemma count_outside_split:
  "length (spec_debtors bs) + length (spec_creditors bs) = count_outside bs"
proof (induction bs)
  case Nil
  show ?case by (simp add: spec_debtors_def spec_creditors_def count_outside_def)
next
  case (Cons e bs)
  then show ?case
    using debtor_not_creditor[of "snd e"]
    by (auto simp: spec_debtors_def spec_creditors_def count_outside_def outside_tol_def)
qed

subsection \<open>sorting\<close>

lemma mset_insert_sorted: "mset (insert_sorted x ys) = add_mset x (mset ys)"
  by (induction ys) auto

lemma mset_py_sort: "mset (py_sort xs) = mset xs"
  by (induction xs) (auto simp: py_sort_def mset_insert_sorted)

lemma set_py_sort: "set (py_sort xs) = set xs"
  using mset_py_sort[of xs] by (metis set_mset_mset)

lemma length_py_sort: "length (py_sort xs) = length xs"
  using mset_py_sort[of xs] by (metis size_mset)

lemma key_less_iff:
  "key_less (sort_key y) (sort_key x) \<longleftrightarrow>
     (if snd y = snd x then fst y < fst x else flt (snd x) (snd y))"
  by (simp add: key_less_def sort_key_def fneg_inj flt_fneg)

lemma key_less_before: "key_less (sort_key y) (sort_key x) \<Longrightarrow> spec_before y x"
  by (auto simp: key_less_iff spec_before_def fgt_def split: if_splits)

lemma not_key_less_before:
  "\<not> key_less (sort_key y) (sort_key x) \<Longrightarrow> snd x \<noteq> NaN \<Longrightarrow> snd y \<noteq> NaN \<Longrightarrow> spec_before x y"
  using flt_total[of "snd x" "snd y"]
  by (auto simp: key_less_iff spec_before_def fgt_def split: if_splits)

lemma spec_before_trans:
  "spec_before x y \<Longrightarrow> spec_before y z \<Longrightarrow> spec_before x z"
  using flt_trans[of "snd z" "snd y" "snd x"]
  by (auto simp: spec_before_def fgt_def)

lemma spec_sorted_insert:
  assumes "spec_sorted ys" "snd x \<noteq> NaN" "\<forall>y \<in> set ys. snd y \<noteq> NaN"
  shows "spec_sorted (insert_sorted x ys)"
  using assms
proof (induction ys)
  case Nil
  show ?case by (simp add: spec_sorted_def)
next
  case (Cons y ys)
  show ?case
  proof (cases "key_less (sort_key y) (sort_key x)")
    case True
    have "spec_sorted (insert_sorted x ys)"
      using Cons by (simp add: spec_sorted_def)
    moreover have "\<forall>z \<in> set (insert_sorted x ys). spec_before y z"
    proof
      fix z assume "z \<in> set (insert_sorted x ys)"
      then have "z = x \<or> z \<in> set ys"
        using mset_insert_sorted[of x ys] by (metis insert_iff set_mset_add_mset_insert set_mset_mset)
      then show "spec_before y z"
        using True Cons.prems(1) by (auto simp: key_less_before spec_sorted_def)
    qed
    ultimately show ?thesis using True by (simp add: spec_sorted_def)
  next
    case False
    then have xy: "spec_before x y"
      using Cons.prems by (simp add: not_key_less_before)
    have "\<forall>z \<in> set ys. spec_before x z"
      using xy Cons.prems(1) by (auto simp: spec_sorted_def intro: spec_before_trans)
    then show ?thesis using False xy Cons.prems(1) by (simp add: spec_sorted_def)
  qed
qed

lemma spec_sorted_py_sort:
  "\<forall>x \<in> set xs. snd x \<noteq> NaN \<Longrightarrow> spec_sorted (py_sort xs)"
proof (induction xs)
  case Nil
  show ?case by (simp add: py_sort_def spec_sorted_def)
next
  case (Cons x xs)
  have "spec_sorted (insert_sorted x (py_sort xs))"
    using Cons by (intro spec_sorted_insert) (auto simp: set_py_sort)
  then show ?case by (simp add: py_sort_def)
qed

lemma open_entries_no_nan: "open_entries xs \<Longrightarrow> \<forall>x \<in> set xs. snd x \<noteq> NaN"
  by (auto simp: open_entries_def)

lemma open_entries_py_sort: "open_entries (py_sort xs) = open_entries xs"
  by (simp add: open_entries_def set_py_sort)


subsection \<open>counting rounds\<close>

lemma py_min_Fin: "py_min (Fin x) (Fin y) = Fin (min x y)"
  by (simp add: py_min_def min_def)

lemma settle_step_Fin:
  "settle_step ((d, Fin x) # ds, (c, Fin y) # cs, out) =
     ((if flt (round_double (x - min x y)) tol then ds
       else (d, round_double (x - min x y)) # ds),
      (if flt (round_double (y - min x y)) tol then cs
       else (c, round_double (y - min x y)) # cs),
      (if the_rat tol < min x y then out @ [(d, c, Fin (min x y))] else out))"
  by (simp add: settle_step_Cons py_min_Fin fsub_def fgt_def tol_def)

lemma flt_zero_tol: "flt (Fin 0) tol"
  by (simp add: tol_def)

lemma open_entries_Cons: "open_entries (e # xs) \<longleftrightarrow> fge0 (snd e) \<and> open_entries xs"
  by (auto simp: open_entries_def)

lemma settle_step_open:
  assumes "fge0 x" "fge0 y" "\<not> (x = PInf \<and> y = PInf)" "open_entries ds" "open_entries cs"
    and st: "settle_step ((d, x) # ds, (c, y) # cs, out) = (ds', cs', out')"
  shows "open_entries ds'" "open_entries cs'"
    "length ds' + length cs' < Suc (length ds) + Suc (length cs)"
    "length out' \<le> Suc (length out)"
proof -
  consider (ff) p q where "x = Fin p" "y = Fin q" "0 \<le> p" "0 \<le> q"
    | (fi) p where "x = Fin p" "y = PInf" "0 \<le> p"
    | (inf) q where "x = PInf" "y = Fin q" "0 \<le> q"
    using assms(1-3) by (cases x; cases y) auto
  then have "open_entries ds' \<and> open_entries cs' \<and>
    length ds' + length cs' < Suc (length ds) + Suc (length cs) \<and> length out' \<le> Suc (length out)"
  proof cases
    case ff
    show ?thesis
    proof (cases "q < p")
      case True
      then have m: "min p q = q" by simp
      have r: "fge0 (round_double (p - q))" using True by (intro round_double_nonneg) simp
      from st show ?thesis
        unfolding ff settle_step_Fin m using assms(4,5) r
        by (auto simp: open_entries_Cons round_double_zero flt_zero_tol split: if_splits)
    next
      case False
      then have m: "min p q = p" by simp
      have r: "fge0 (round_double (q - p))" using False by (intro round_double_nonneg) simp
      from st show ?thesis
        unfolding ff settle_step_Fin m using assms(4,5) r
        by (auto simp: open_entries_Cons round_double_zero flt_zero_tol split: if_splits)
    qed
  next
    case fi
    from st show ?thesis
      unfolding fi settle_step_Cons using assms(4,5)
      by (auto simp: open_entries_Cons py_min_def fsub_def fgt_def round_double_zero flt_zero_tol
          split: if_splits)
  next
    case inf
    from st show ?thesis
      unfolding inf settle_step_Cons using assms(4,5)
      by (auto simp: open_entries_Cons py_min_def fsub_def fgt_def round_double_zero flt_zero_tol
          split: if_splits)
  qed
  then show "open_entries ds'" "open_entries cs'"
    "length ds' + length cs' < Suc (length ds) + Suc (length cs)"
    "length out' \<le> Suc (length out)" by simp_all
qed

lemma settle_loop_count:
  assumes "open_entries ds" "open_entries cs" "settle_loop (ds, cs, out) = Some r"
  shows "length r \<le> length out + (length ds + length cs - 1)"
  using assms
proof (induction "length ds + length cs" arbitrary: ds cs out rule: less_induct)
  case less
  show ?case
  proof (cases "ds = [] \<or> cs = []")
    case True
    then have "settle_loop (ds, cs, out) = Some out" by (rule settle_loop_stop)
    with less.prems(3) show ?thesis by simp
  next
    case False
    then obtain d x ds0 c y cs0 where ds: "ds = (d, x) # ds0" and cs: "cs = (c, y) # cs0"
      by (cases ds; cases cs) auto
    have heads: "fge0 x" "fge0 y" and rest: "open_entries ds0" "open_entries cs0"
      using less.prems(1,2) by (simp_all add: ds cs open_entries_Cons)
    have noinf: "\<not> (x = PInf \<and> y = PInf)"
      using less.prems(3) by (auto simp: ds cs settle_loop_inf)
    obtain ds' cs' out' where st: "settle_step ((d, x) # ds0, (c, y) # cs0, out) = (ds', cs', out')"
      by (cases "settle_step ((d, x) # ds0, (c, y) # cs0, out)") auto
    note facts = settle_step_open[OF heads noinf rest st]
    have lt: "length ds' + length cs' < length ds + length cs"
      using facts(3) by (simp add: ds cs)
    have "settle_loop (ds', cs', out') = Some r"
      using less.prems(3) unfolding ds cs by (subst (asm) settle_loop_Cons) (simp add: st)
    from less.hyps[OF lt facts(1) facts(2) this]
    have "length r \<le> length out' + (length ds' + length cs' - 1)" .
    moreover have "2 \<le> length ds + length cs" by (simp add: ds cs)
    ultimately show ?thesis using lt facts(4) by linarith
  qed
qed

lemma calculate_settlements_unfold:
  "calculate_settlements bs = settle_loop (py_sort (spec_debtors bs), py_sort (spec_creditors bs), [])"
  by (simp add: calculate_settlements_def partition_balances_spec)

lemma calculate_settlements_count:
  assumes "calculate_settlements bs = Some ts"
  shows "length ts \<le> count_outside bs - 1"
proof -
  have "length ts \<le> length ([]::transfer list) +
      (length (py_sort (spec_debtors bs)) + length (py_sort (spec_creditors bs)) - 1)"
    using assms unfolding calculate_settlements_unfold
    by (intro settle_loop_count)
       (simp_all add: open_entries_py_sort spec_debtors_open spec_creditors_open)
  then show ?thesis by (simp add: length_py_sort count_outside_split)
qed

section \<open>Who appears in a transfer\<close>

lemma settle_loop_names:
  assumes "settle_loop s = Some r"
  shows "\<forall>t \<in> set r. t \<in> set (snd (snd s)) \<or>
           (fst t \<in> fst ` set (fst s) \<and> fst (snd t) \<in> fst ` set (fst (snd s)))"
proof (rule settle_loop.raw_induct[where P = "\<lambda>s r. \<forall>t \<in> set r. t \<in> set (snd (snd s)) \<or>
           (fst t \<in> fst ` set (fst s) \<and> fst (snd t) \<in> fst ` set (fst (snd s)))", OF _ assms])
  fix f :: "entry list \<times> entry list \<times> transfer list \<Rightarrow> transfer list option"
  fix s r
  assume IH: "\<And>x y. f x = Some y \<Longrightarrow> \<forall>t \<in> set y. t \<in> set (snd (snd x)) \<or>
           (fst t \<in> fst ` set (fst x) \<and> fst (snd t) \<in> fst ` set (fst (snd x)))"
  assume eq: "(if fst s \<noteq> [] \<and> fst (snd s) \<noteq> [] then f (settle_step s) else Some (snd (snd s))) = Some r"
  obtain ds cs out where s: "s = (ds, cs, out)"
    by (cases s) auto
  show "\<forall>t \<in> set r. t \<in> set (snd (snd s)) \<or>
           (fst t \<in> fst ` set (fst s) \<and> fst (snd t) \<in> fst ` set (fst (snd s)))"
  proof (cases "ds = [] \<or> cs = []")
    case True
    with eq s have "r = out" by auto
    then show ?thesis by (simp add: s)
  next
    case False
    then obtain d x ds0 c y cs0 where ds: "ds = (d, x) # ds0" and cs: "cs = (c, y) # cs0"
      by (cases ds; cases cs) auto
    obtain ds' cs' out' where st: "settle_step s = (ds', cs', out')"
      by (cases "settle_step s") auto
    have sub: "fst ` set ds' \<subseteq> fst ` set ds" "fst ` set cs' \<subseteq> fst ` set cs"
      "set out' \<subseteq> insert (d, c, py_min x y) (set out)"
      using st unfolding s ds cs settle_step_Cons by (auto split: if_splits)
    from eq s ds cs have "f (settle_step s) = Some r" by simp
    from IH[OF this] have ih: "\<forall>t \<in> set r. t \<in> set out' \<or>
           (fst t \<in> fst ` set ds' \<and> fst (snd t) \<in> fst ` set cs')"
      by (simp add: st)
    have hd: "d \<in> fst ` set ds" "c \<in> fst ` set cs"
      by (simp_all add: ds cs)
    have "t \<in> set out \<or> (fst t \<in> fst ` set ds \<and> fst (snd t) \<in> fst ` set cs)"
      if t: "t \<in> set r" for t
    proof (cases "t = (d, c, py_min x y)")
      case True
      with hd show ?thesis by simp
    next
      case False
      from ih t have "t \<in> set out' \<or>
           (fst t \<in> fst ` set ds' \<and> fst (snd t) \<in> fst ` set cs')" by (rule bspec)
      then show ?thesis
      proof
        assume "t \<in> set out'"
        with sub(3) False show ?thesis by blast
      next
        assume "fst t \<in> fst ` set ds' \<and> fst (snd t) \<in> fst ` set cs'"
        with sub(1,2) show ?thesis by blast
      qed
    qed
    then show ?thesis
      unfolding s by simp
  qed
qed

lemma calculate_settlements_names:
  assumes "calculate_settlements bs = Some ts" "t \<in> set ts"
  shows "fst t \<in> fst ` set (spec_debtors bs)" "fst (snd t) \<in> fst ` set (spec_creditors bs)"
proof -
  have "settle_loop (py_sort (spec_debtors bs), py_sort (spec_creditors bs), []) = Some ts"
    using assms(1) by (simp add: calculate_settlements_unfold)
  from settle_loop_names[OF this] assms(2)
  have "fst t \<in> fst ` set (py_sort (spec_debtors bs)) \<and>
        fst (snd t) \<in> fst ` set (py_sort (spec_creditors bs))"
    by simp
  then show "fst t \<in> fst ` set (spec_debtors bs)" "fst (snd t) \<in> fst ` set (spec_creditors bs)"
    by (simp_all add: set_py_sort)
qed

lemma outside_names:
  assumes "distinct (map fst bs)" "e \<in> set bs" "\<not> outside_tol e"
  shows "fst e \<notin> fst ` set (spec_debtors bs)" "fst e \<notin> fst ` set (spec_creditors bs)"
proof -
  have same: "e' = e" if "e' \<in> set bs" "fst e' = fst e" for e'
    using that assms(1,2) by (meson distinct_map inj_onD)
  show "fst e \<notin> fst ` set (spec_debtors bs)"
  proof
    assume "fst e \<in> fst ` set (spec_debtors bs)"
    then obtain e' where e': "e' \<in> set bs" "flt (snd e') (fneg tol)" "fst e' = fst e"
      by (auto simp: spec_debtors_def)
    from same[OF e'(1,3)] e'(2) assms(3) show False by (simp add: outside_tol_def)
  qed
  show "fst e \<notin> fst ` set (spec_creditors bs)"
  proof
    assume "fst e \<in> fst ` set (spec_creditors bs)"
    then obtain e' where e': "e' \<in> set bs" "fgt (snd e') tol" "fst e' = fst e"
      by (auto simp: spec_creditors_def)
    from same[OF e'(1,3)] e'(2) assms(3) show False by (simp add: outside_tol_def)
  qed
qed

section \<open>The order of the balance mapping\<close>

text \<open>
  The sort key orders entries totally, so the sorted lists, and with them the
  transfers, do not depend on the order in which the balance mapping lists its
  families.
\<close>

lemma spec_before_antisym:
  "spec_before x y \<Longrightarrow> spec_before y x \<Longrightarrow> x = y"
proof -
  assume xy: "spec_before x y" and yx: "spec_before y x"
  show "x = y"
  proof (cases "snd x = snd y")
    case True
    with xy yx have "fst x \<le> fst y" "fst y \<le> fst x"
      by (simp_all add: spec_before_def fgt_def flt_irrefl)
    then have "fst x = fst y" by (rule antisym)
    with True show ?thesis by (simp add: prod_eq_iff)
  next
    case False
    with xy yx have "flt (snd y) (snd x)" "flt (snd x) (snd y)"
      by (simp_all add: spec_before_def fgt_def)
    then show ?thesis using flt_asym by blast
  qed
qed

lemma spec_sorted_unique:
  assumes "spec_sorted xs" "spec_sorted ys" "mset xs = mset ys"
  shows "xs = ys"
  using assms
proof (induction xs arbitrary: ys)
  case Nil
  then show ?case by simp
next
  case (Cons x xs)
  from Cons.prems(3) obtain y ys' where ys: "ys = y # ys'"
    by (cases ys) auto
  have "x \<in> set ys" using Cons.prems(3) by (metis list.set_intros(1) set_mset_mset)
  then have yx: "x = y \<or> spec_before y x"
    using Cons.prems(2) by (auto simp: ys spec_sorted_def)
  have "y \<in> set (x # xs)" using Cons.prems(3) ys by (metis list.set_intros(1) set_mset_mset)
  then have xy: "x = y \<or> spec_before x y"
    using Cons.prems(1) by (auto simp: spec_sorted_def)
  from xy yx have eq: "x = y" using spec_before_antisym by blast
  have "xs = ys'"
    using Cons.prems by (intro Cons.IH) (auto simp: ys eq spec_sorted_def)
  with eq ys show ?case by simp
qed

lemma py_sort_permutation:
  assumes "mset xs = mset ys" "\<forall>x \<in> set xs. snd x \<noteq> NaN"
  shows "py_sort xs = py_sort ys"
proof -
  have "\<forall>y \<in> set ys. snd y \<noteq> NaN"
    using assms by (metis set_mset_mset)
  then show ?thesis
    using assms by (intro spec_sorted_unique spec_sorted_py_sort) (simp_all add: mset_py_sort)
qed

lemma calculate_settlements_order:
  assumes "mset bs = mset bs'"
  shows "calculate_settlements bs = calculate_settlements bs'"
proof -
  have d: "mset (spec_debtors bs) = mset (spec_debtors bs')"
    unfolding spec_debtors_def using assms by (simp only: mset_map mset_filter)
  have c: "mset (spec_creditors bs) = mset (spec_creditors bs')"
    unfolding spec_creditors_def using assms by (simp only: mset_filter)
  have "py_sort (spec_debtors bs) = py_sort (spec_debtors bs')"
    using d by (rule py_sort_permutation) (rule open_entries_no_nan[OF spec_debtors_open])
  moreover have "py_sort (spec_creditors bs) = py_sort (spec_creditors bs')"
    using c by (rule py_sort_permutation) (rule open_entries_no_nan[OF spec_creditors_open])
  ultimately show ?thesis by (simp add: calculate_settlements_unfold)
qed

section \<open>The loop and the specified rounds\<close>

text \<open>
  On entries that are not \<^verbatim>\<open>nan\<close> the program's \<^verbatim>\<open>min\<close> is the minimum of the
  specification.
\<close>

lemma spec_min_open: "fge0 a \<Longrightarrow> fge0 b \<Longrightarrow> spec_min a b = py_min a b"
  by (cases a; cases b) (auto simp: spec_min_def py_min_def)

lemma spec_run_not_nan:
  assumes "spec_greedy_run s r"
  shows "\<not> (\<exists>d ds c cs out. s = ((d, NaN) # ds, (c, NaN) # cs, out))"
  using assms
proof (induction rule: spec_greedy_run.induct)
  case (finished ds cs out)
  then show ?case by auto
next
  case (round amt debt credit out' out d c ds' ds cs' cs result)
  show ?case
  proof
    assume "\<exists>d' ds'' c' cs'' out''.
      ((d, debt) # ds, (c, credit) # cs, out) = ((d', NaN) # ds'', (c', NaN) # cs'', out'')"
    then have n: "debt = NaN" "credit = NaN" by simp_all
    have "amt = NaN" using round.hyps(1) by (simp add: n spec_min_def)
    then have "ds' = (d, NaN) # ds" "cs' = (c, NaN) # cs"
      using round.hyps(3,4) by (simp_all add: n fsub_def)
    with round.IH show False by blast
  qed
qed

lemma settle_loop_imp_spec:
  assumes "open_entries ds" "open_entries cs" "settle_loop (ds, cs, out) = Some r"
  shows "spec_greedy_run (ds, cs, out) r"
  using assms
proof (induction "length ds + length cs" arbitrary: ds cs out rule: less_induct)
  case less
  show ?case
  proof (cases "ds = [] \<or> cs = []")
    case True
    then have "settle_loop (ds, cs, out) = Some out" by (rule settle_loop_stop)
    with less.prems(3) have "r = out" by simp
    with True show ?thesis by (simp add: spec_greedy_run.finished)
  next
    case False
    then obtain d x ds0 c y cs0 where ds: "ds = (d, x) # ds0" and cs: "cs = (c, y) # cs0"
      by (cases ds; cases cs) auto
    have heads: "fge0 x" "fge0 y" and rest: "open_entries ds0" "open_entries cs0"
      using less.prems(1,2) by (simp_all add: ds cs open_entries_Cons)
    have noinf: "\<not> (x = PInf \<and> y = PInf)"
      using less.prems(3) by (auto simp: ds cs settle_loop_inf)
    obtain ds' cs' out' where st: "settle_step ((d, x) # ds0, (c, y) # cs0, out) = (ds', cs', out')"
      by (cases "settle_step ((d, x) # ds0, (c, y) # cs0, out)") auto
    note facts = settle_step_open[OF heads noinf rest st]
    have lt: "length ds' + length cs' < length ds + length cs"
      using facts(3) by (simp add: ds cs)
    have "settle_loop (ds', cs', out') = Some r"
      using less.prems(3) unfolding ds cs by (subst (asm) settle_loop_Cons) (simp add: st)
    from less.hyps[OF lt facts(1) facts(2) this]
    have run: "spec_greedy_run (ds', cs', out') r" .
    have m: "spec_min x y = py_min x y" using heads by (rule spec_min_open)
    from st have eqs:
      "out' = (if fgt (spec_min x y) tol then out @ [(d, c, spec_min x y)] else out)"
      "ds' = (if flt (fsub x (spec_min x y)) tol then ds0 else (d, fsub x (spec_min x y)) # ds0)"
      "cs' = (if flt (fsub y (spec_min x y)) tol then cs0 else (c, fsub y (spec_min x y)) # cs0)"
      unfolding settle_step_Cons m by simp_all
    show ?thesis
      unfolding ds cs by (rule spec_greedy_run.round[OF refl eqs run])
  qed
qed

lemma spec_imp_settle_loop:
  assumes "spec_greedy_run s r" "open_entries (fst s)" "open_entries (fst (snd s))"
  shows "settle_loop s = Some r"
  using assms
proof (induction rule: spec_greedy_run.induct)
  case (finished ds cs out)
  then show ?case by (simp add: settle_loop_stop)
next
  case (round amt debt credit out' out d c ds' ds cs' cs result)
  have heads: "fge0 debt" "fge0 credit" and rest: "open_entries ds" "open_entries cs"
    using round.prems by (simp_all add: open_entries_Cons)
  have m: "spec_min debt credit = py_min debt credit" using heads by (rule spec_min_open)
  have st: "settle_step ((d, debt) # ds, (c, credit) # cs, out) = (ds', cs', out')"
    unfolding settle_step_Cons using round.hyps(1-4) by (simp add: m)
  have noinf: "\<not> (debt = PInf \<and> credit = PInf)"
  proof
    assume "debt = PInf \<and> credit = PInf"
    then have "ds' = (d, NaN) # ds" "cs' = (c, NaN) # cs"
      using round.hyps(1,3,4) by (simp_all add: spec_min_def fsub_def)
    with spec_run_not_nan[OF round.hyps(5)] show False by blast
  qed
  note facts = settle_step_open[OF heads noinf rest st]
  have "settle_loop (ds', cs', out') = Some result"
    using round.IH facts(1,2) by simp
  then show ?case
    by (subst settle_loop_Cons) (simp add: st)
qed

lemma settle_loop_iff_spec:
  assumes "open_entries ds" "open_entries cs"
  shows "settle_loop (ds, cs, out) = Some r \<longleftrightarrow> spec_greedy_run (ds, cs, out) r"
  using settle_loop_imp_spec[OF assms] spec_imp_settle_loop[of "(ds, cs, out)" r] assms
  by auto

text \<open>Whole numbers that a double holds exactly round to themselves.\<close>

lemma round_double_numeral:
  "numeral n < (2 ^ 53 :: int) \<Longrightarrow> round_double (numeral n) = Fin (numeral n)"
  using round_double_int[of "numeral n"] by simp

lemma round_double_one: "round_double 1 = Fin 1"
  using round_double_int[of 1] by simp

section \<open>Claims about calculate_settlements\<close>

text \<open>
  Claim C4. For every balance mapping (a dictionary, so with distinct family names),
  \<^verbatim>\<open>calculate_settlements\<close> follows the specified greedy procedure: its two lists are
  the specified debtors and creditors, each sorted once, descending by amount with
  ties broken by ascending family name; it returns a list exactly when that list is
  the result of a run of the specified rounds on the sorted lists, each round taking
  the minimum of debt and credit as its amount; and a family whose balance lies
  within \<open>\<plusminus>0.01\<close> appears in no transfer.
\<close>

theorem settlements_follow_greedy_procedure:
  assumes "distinct (map fst bs)"
  shows "partition_balances bs ([], []) = (spec_debtors bs, spec_creditors bs) \<and>
     mset (py_sort (spec_debtors bs)) = mset (spec_debtors bs) \<and>
     spec_sorted (py_sort (spec_debtors bs)) \<and>
     mset (py_sort (spec_creditors bs)) = mset (spec_creditors bs) \<and>
     spec_sorted (py_sort (spec_creditors bs)) \<and>
     (\<forall>ts. calculate_settlements bs = Some ts \<longleftrightarrow>
        spec_greedy_run (py_sort (spec_debtors bs), py_sort (spec_creditors bs), []) ts) \<and>
     (\<forall>ts e. calculate_settlements bs = Some ts \<longrightarrow> e \<in> set bs \<longrightarrow> \<not> outside_tol e \<longrightarrow>
        (\<forall>t \<in> set ts. fst t \<noteq> fst e \<and> fst (snd t) \<noteq> fst e))"
proof (intro conjI allI impI ballI)
  show "partition_balances bs ([], []) = (spec_debtors bs, spec_creditors bs)"
    by (simp add: partition_balances_spec)
  show "mset (py_sort (spec_debtors bs)) = mset (spec_debtors bs)"
    by (rule mset_py_sort)
  show "mset (py_sort (spec_creditors bs)) = mset (spec_creditors bs)"
    by (rule mset_py_sort)
  show "spec_sorted (py_sort (spec_debtors bs))"
    by (intro spec_sorted_py_sort open_entries_no_nan spec_debtors_open)
  show "spec_sorted (py_sort (spec_creditors bs))"
    by (intro spec_sorted_py_sort open_entries_no_nan spec_creditors_open)
  show "calculate_settlements bs = Some ts \<longleftrightarrow>
        spec_greedy_run (py_sort (spec_debtors bs), py_sort (spec_creditors bs), []) ts" for ts
    unfolding calculate_settlements_unfold
    by (rule settle_loop_iff_spec)
       (simp_all add: open_entries_py_sort spec_debtors_open spec_creditors_open)
next
  fix ts e t
  assume a: "calculate_settlements bs = Some ts" "e \<in> set bs" "\<not> outside_tol e" "t \<in> set ts"
  show "fst t \<noteq> fst e"
    using calculate_settlements_names(1)[OF a(1) a(4)] outside_names(1)[OF assms a(2) a(3)]
    by metis
  show "fst (snd t) \<noteq> fst e"
    using calculate_settlements_names(2)[OF a(1) a(4)] outside_names(2)[OF assms a(2) a(3)]
    by metis
qed

theorem settlements_follow_greedy_procedure_witness:
  "distinct (map fst [(''Adams'', Fin 40), (''Oiler'', Fin (- 25)), (''Baker'', Fin (- 15)),
      (''Cole'', Fin 0)]) \<and>
   calculate_settlements [(''Adams'', Fin 40), (''Oiler'', Fin (- 25)), (''Baker'', Fin (- 15)),
      (''Cole'', Fin 0)] =
     Some [(''Oiler'', ''Adams'', Fin 25), (''Baker'', ''Adams'', Fin 15)] \<and>
   py_sort (spec_debtors [(''Adams'', Fin 40), (''Oiler'', Fin (- 25)), (''Baker'', Fin (- 15)),
      (''Cole'', Fin 0)]) = [(''Oiler'', Fin 25), (''Baker'', Fin 15)] \<and>
   py_sort (spec_creditors [(''Adams'', Fin 40), (''Oiler'', Fin (- 25)), (''Baker'', Fin (- 15)),
      (''Cole'', Fin 0)]) = [(''Adams'', Fin 40)] \<and>
   spec_min (Fin 25) (Fin 40) = Fin 25 \<and>
   spec_greedy_run ([(''Oiler'', Fin 25), (''Baker'', Fin 15)], [(''Adams'', Fin 40)], [])
     [(''Oiler'', ''Adams'', Fin 25), (''Baker'', ''Adams'', Fin 15)] \<and>
   spec_sorted [(''Oiler'', Fin 25), (''Baker'', Fin 15)]"
proof -
  let ?bs = "[(''Adams'', Fin 40), (''Oiler'', Fin (- 25)), (''Baker'', Fin (- 15)),
      (''Cole'', Fin 0)]"
  have d: "distinct (map fst ?bs)" by simp
  have sd: "py_sort (spec_debtors ?bs) = [(''Oiler'', Fin 25), (''Baker'', Fin 15)]"
    by (simp add: spec_debtors_def py_sort_def tol_def sort_key_def key_less_def)
  have sc: "py_sort (spec_creditors ?bs) = [(''Adams'', Fin 40)]"
    by (simp add: spec_creditors_def py_sort_def tol_def fgt_def)
  have c: "calculate_settlements ?bs =
      Some [(''Oiler'', ''Adams'', Fin 25), (''Baker'', ''Adams'', Fin 15)]"
    unfolding calculate_settlements_unfold sd sc
    by (simp add: settle_loop.simps settle_step_Fin tol_def round_double_zero
        round_double_numeral)
  have m: "spec_min (Fin 25) (Fin 40) = Fin 25" by (simp add: spec_min_def)
  note greedy = settlements_follow_greedy_procedure[OF d]
  have s: "spec_sorted [(''Oiler'', Fin 25), (''Baker'', Fin 15)]"
    using greedy unfolding sd by blast
  have "\<forall>ts. calculate_settlements ?bs = Some ts \<longleftrightarrow>
        spec_greedy_run (py_sort (spec_debtors ?bs), py_sort (spec_creditors ?bs), []) ts"
    using greedy by blast
  with c have g: "spec_greedy_run ([(''Oiler'', Fin 25), (''Baker'', Fin 15)],
      [(''Adams'', Fin 40)], [])
      [(''Oiler'', ''Adams'', Fin 25), (''Baker'', ''Adams'', Fin 15)]"
    unfolding sd sc by blast
  from d c sd sc m g s show ?thesis by (intro conjI)
qed

text \<open>
  Claim C5, as stated: the number of transfers is at most the number of families
  outside \<open>\<plusminus>0.01\<close> minus 1. When every family is balanced that number is 0, no
  transfer is emitted, and \<open>0 \<le> 0 - 1\<close> is false.
\<close>

theorem transfer_count_bound_counterexample:
  "calculate_settlements [(''Adams'', Fin 0), (''Oiler'', Fin 0)] = Some [] \<and>
   \<not> int (length ([] :: transfer list)) \<le>
       int (count_outside [(''Adams'', Fin 0), (''Oiler'', Fin 0)]) - 1"
  by (simp add: calculate_settlements_def py_sort_def settle_loop.simps tol_def fgt_def
      count_outside_def outside_tol_def)

text \<open>
  Claim C5, amended: whenever \<^verbatim>\<open>calculate_settlements\<close> returns, the number of
  transfers is at most the number of families outside \<open>\<plusminus>0.01\<close> minus 1, or 0 when
  there is no such family.
\<close>

theorem transfer_count_bound:
  assumes "calculate_settlements bs = Some ts"
  shows "int (length ts) \<le> max 0 (int (count_outside bs) - 1)"
  using calculate_settlements_count[OF assms] by linarith

text \<open>
  The balances \<^verbatim>\<open>{"D": -1.01, "C": 1.0, "C2": 0.5}\<close>. The double nearest to 1.01 is
  \<open>4548635623644201 / 2\<^sup>5\<^sup>2\<close>; after the first round the debtor is left with
  \<open>45035996273705 / 2\<^sup>5\<^sup>2\<close>, which Python prints as \<^verbatim>\<open>0.010000000000000009\<close> and
  which is above the double \<^verbatim>\<open>0.01\<close>, so that a second transfer is emitted.
\<close>

lemma double_101: "round_double (101 / 100) = Fin (4548635623644201 / 4503599627370496)"
proof -
  have "round_double (101 / 100) = Fin (of_int 4548635623644201 * pow2 (0 - 52))"
    by (rule round_double_eqI) (simp_all add: pow2_def)
  then show ?thesis by (simp add: pow2_def)
qed

lemma double_101_rest:
  "round_double (45035996273705 / 4503599627370496) = Fin (45035996273705 / 4503599627370496)"
  by (rule round_double_exact[of _ 45035996273705 "- 52"]) (simp_all add: pow2_def)

lemma double_half_rest:
  "round_double (2206763817411543 / 4503599627370496) =
     Fin (2206763817411543 / 4503599627370496)"
  by (rule round_double_exact[of _ 2206763817411543 "- 52"]) (simp_all add: pow2_def)

theorem transfer_count_bound_witness:
  "calculate_settlements
     [(''D'', fneg (round_double (101 / 100))), (''C'', Fin 1), (''C2'', Fin (1 / 2))] =
     Some [(''D'', ''C'', Fin 1), (''D'', ''C2'', Fin (45035996273705 / 4503599627370496))] \<and>
   count_outside
     [(''D'', fneg (round_double (101 / 100))), (''C'', Fin 1), (''C2'', Fin (1 / 2))] = 3 \<and>
   int (length [(''D'', ''C'', Fin 1), (''D'', ''C2'', Fin (45035996273705 / 4503599627370496))]) \<le>
     max 0 (int (count_outside
       [(''D'', fneg (round_double (101 / 100))), (''C'', Fin 1), (''C2'', Fin (1 / 2))]) - 1)"
proof -
  have c: "calculate_settlements
     [(''D'', fneg (round_double (101 / 100))), (''C'', Fin 1), (''C2'', Fin (1 / 2))] =
     Some [(''D'', ''C'', Fin 1), (''D'', ''C2'', Fin (45035996273705 / 4503599627370496))]"
    unfolding double_101
    by (simp add: calculate_settlements_def py_sort_def sort_key_def key_less_def fgt_def
        settle_loop.simps settle_step_Fin tol_def round_double_zero double_101_rest
        double_half_rest)
  have n: "count_outside
     [(''D'', fneg (round_double (101 / 100))), (''C'', Fin 1), (''C2'', Fin (1 / 2))] = 3"
    unfolding double_101 by (simp add: count_outside_def outside_tol_def tol_def fgt_def)
  from transfer_count_bound[OF c] c n show ?thesis by (intro conjI)
qed


section \<open>Settling whole numbers\<close>

subsection \<open>accounting\<close>

lemma left_in_Cons: "left_in (e # xs) f = (if fst e = f then the_rat (snd e) else 0) + left_in xs f"
  by (simp add: left_in_def)

lemma left_in_Nil: "left_in [] f = 0"
  by (simp add: left_in_def)

lemma paid_in_snoc: "paid_in (ts @ [(d, c, a)]) f = paid_in ts f + (if d = f then the_rat a else 0)"
  by (simp add: paid_in_def)

lemma received_in_snoc: "received_in (ts @ [(d, c, a)]) f = received_in ts f + (if c = f then the_rat a else 0)"
  by (simp add: received_in_def)

lemma amount_total_snoc: "amount_total (ts @ [(d, c, a)]) = amount_total ts + the_rat a"
  by (simp add: amount_total_def)

lemma balance_sum_Cons: "balance_sum (e # xs) = the_rat (snd e) + balance_sum xs"
  by (simp add: balance_sum_def)

lemma whole_entries_Cons:
  "whole_entries (e # xs) \<longleftrightarrow> whole (snd e) \<and> 1 \<le> the_rat (snd e) \<and> whole_entries xs"
  by (simp add: whole_entries_def)

lemma whole_amounts_snoc:
  "whole_amounts (ts @ [(d, c, a)]) \<longleftrightarrow> whole_amounts ts \<and> whole a \<and> 0 \<le> the_rat a"
  by (auto simp: whole_amounts_def)

lemma whole_cases:
  assumes "whole x"
  obtains n where "x = Fin (of_int n)" "\<bar>n\<bar> < 2 ^ 53"
proof -
  from assms obtain q where x: "x = Fin q" and q: "q = of_int \<lfloor>q\<rfloor>" "\<bar>q\<bar> < 2 ^ 53"
    by (cases x) auto
  have "\<bar>(of_int \<lfloor>q\<rfloor> :: rat)\<bar> < of_int (2 ^ 53)" using q by simp
  then have "(of_int \<bar>\<lfloor>q\<rfloor>\<bar> :: rat) < of_int (2 ^ 53)" by (simp only: of_int_abs)
  then have "\<bar>\<lfloor>q\<rfloor>\<bar> < 2 ^ 53" by (simp only: of_int_less_iff)
  with x q(1) that show ?thesis by metis
qed

lemma whole_of_int: "\<bar>n\<bar> < 2 ^ 53 \<Longrightarrow> whole (Fin (of_int n))"
proof -
  assume "\<bar>n\<bar> < 2 ^ 53"
  then have "(of_int \<bar>n\<bar> :: rat) < of_int (2 ^ 53)" by (simp only: of_int_less_iff)
  then show ?thesis by simp
qed

lemma int_less_tol: "(of_int k < the_rat tol) = (k \<le> 0)"
proof
  assume "of_int k < the_rat tol"
  then have "(of_int k :: rat) < of_int 1" by (simp add: tol_def)
  then have "k < 1" by (simp only: of_int_less_iff)
  then show "k \<le> 0" by simp
next
  assume "k \<le> 0"
  then have "(of_int k :: rat) \<le> 0" by simp
  then show "of_int k < the_rat tol" using tol_pos by linarith
qed

lemma tol_less_int: "(the_rat tol < of_int k) = (1 \<le> k)"
proof
  assume a: "the_rat tol < of_int k"
  have "(of_int 0 :: rat) < of_int k" using a tol_pos by simp
  then have "0 < k" by (simp only: of_int_less_iff)
  then show "1 \<le> k" by simp
next
  assume "1 \<le> k"
  then have "(1 :: rat) \<le> of_int k" by simp
  moreover have "the_rat tol < 1" by (simp add: tol_def)
  ultimately show "the_rat tol < of_int k" by linarith
qed

subsection \<open>one round\<close>

lemma settle_step_whole:
  assumes "1 \<le> a" "a < 2 ^ 53" "1 \<le> b" "b < 2 ^ 53"
  shows "settle_step ((d, Fin (of_int a)) # ds, (c, Fin (of_int b)) # cs, out) =
     ((if a \<le> b then ds else (d, Fin (of_int (a - b))) # ds),
      (if b \<le> a then cs else (c, Fin (of_int (b - a))) # cs),
      out @ [(d, c, Fin (of_int (min a b)))])"
proof -
  have m: "min (of_int a :: rat) (of_int b) = of_int (min a b)" by (simp add: min_def)
  have ra: "round_double (of_int a - of_int (min a b)) = Fin (of_int (a - min a b))"
    using round_double_int[of "a - min a b"] assms by (simp add: min_def)
  have rb: "round_double (of_int b - of_int (min a b)) = Fin (of_int (b - min a b))"
    using round_double_int[of "b - min a b"] assms by (simp add: min_def)
  have pa: "flt (Fin (of_int (a - min a b))) tol \<longleftrightarrow> a \<le> b"
    using int_less_tol[of "a - min a b"] by (auto simp: tol_def min_def)
  have pb: "flt (Fin (of_int (b - min a b))) tol \<longleftrightarrow> b \<le> a"
    using int_less_tol[of "b - min a b"] by (auto simp: tol_def min_def)
  have em: "the_rat tol < of_int (min a b)"
    using assms by (simp add: tol_less_int)
  show ?thesis
    unfolding settle_step_Fin m ra rb pa pb using em by (auto simp: min_def)
qed

lemma whole_entry_cases:
  assumes "whole x" "1 \<le> the_rat x"
  obtains a where "x = Fin (of_int a)" "1 \<le> a" "a < 2 ^ 53"
proof -
  from assms(1) obtain n where n: "x = Fin (of_int n)" "\<bar>n\<bar> < 2 ^ 53" by (rule whole_cases)
  from assms(2) n(1) have "(of_int 1 :: rat) \<le> of_int n" by simp
  then have "1 \<le> n" by (simp only: of_int_le_iff)
  with n that show ?thesis by simp
qed

lemma whole_entries_nonneg: "whole_entries xs \<Longrightarrow> 0 \<le> left_in xs f"
  by (induction xs) (auto simp: left_in_Cons left_in_Nil whole_entries_Cons)

lemma whole_entries_total: "whole_entries xs \<Longrightarrow> balance_sum xs = 0 \<Longrightarrow> xs = []"
proof (induction xs)
  case Nil
  show ?case by simp
next
  case (Cons e xs)
  have "0 \<le> balance_sum xs"
    using Cons.prems(1)
  proof (induction xs)
    case Nil
    show ?case by (simp add: balance_sum_def)
  next
    case (Cons a xs)
    then show ?case by (auto simp: balance_sum_Cons whole_entries_Cons)
  qed
  with Cons.prems show ?case by (simp add: balance_sum_Cons whole_entries_Cons)
qed

text \<open>One round on whole heads: what it does to the measures.\<close>

lemma settle_step_whole_facts:
  assumes "1 \<le> a" "a < 2 ^ 53" "1 \<le> b" "b < 2 ^ 53" "whole_entries ds" "whole_entries cs"
    and st: "settle_step ((d, Fin (of_int a)) # ds, (c, Fin (of_int b)) # cs, out) = (ds', cs', out')"
  shows "whole_entries ds'" "whole_entries cs'"
    "length ds' + length cs' < Suc (length ds) + Suc (length cs)"
    "whole_amounts out \<Longrightarrow> whole_amounts out'"
    "paid_in out' f + left_in ds' f = paid_in out f + left_in ((d, Fin (of_int a)) # ds) f"
    "received_in out' f + left_in cs' f = received_in out f + left_in ((c, Fin (of_int b)) # cs) f"
    "amount_total out' + balance_sum ds' = amount_total out + balance_sum ((d, Fin (of_int a)) # ds)"
    "amount_total out' + balance_sum cs' = amount_total out + balance_sum ((c, Fin (of_int b)) # cs)"
proof -
  have ds': "ds' = (if a \<le> b then ds else (d, Fin (of_int (a - b))) # ds)"
    and cs': "cs' = (if b \<le> a then cs else (c, Fin (of_int (b - a))) # cs)"
    and out': "out' = out @ [(d, c, Fin (of_int (min a b)))]"
    using st unfolding settle_step_whole[OF assms(1-4)] by simp_all
  have wa: "whole (Fin (of_int (a - b)))" if "\<not> a \<le> b"
    using that assms(1-4) by (intro whole_of_int) simp
  have wb: "whole (Fin (of_int (b - a)))" if "\<not> b \<le> a"
    using that assms(1-4) by (intro whole_of_int) simp
  have wm: "whole (Fin (of_int (min a b)))"
    using assms(1-4) by (intro whole_of_int) simp
  show "whole_entries ds'"
    using assms(5) wa by (cases "a \<le> b") (simp_all add: ds' whole_entries_Cons)
  show "whole_entries cs'"
    using assms(6) wb by (cases "b \<le> a") (simp_all add: cs' whole_entries_Cons)
  show "length ds' + length cs' < Suc (length ds) + Suc (length cs)"
    by (auto simp: ds' cs')
  show "whole_amounts out \<Longrightarrow> whole_amounts out'"
    using wm assms(1,3) unfolding out' whole_amounts_snoc by simp
  show "paid_in out' f + left_in ds' f = paid_in out f + left_in ((d, Fin (of_int a)) # ds) f"
    by (cases "a \<le> b") (simp_all add: out' ds' paid_in_snoc left_in_Cons min_def)
  show "received_in out' f + left_in cs' f = received_in out f + left_in ((c, Fin (of_int b)) # cs) f"
    by (cases "b \<le> a") (auto simp: out' cs' received_in_snoc left_in_Cons min_def)
  show "amount_total out' + balance_sum ds' = amount_total out + balance_sum ((d, Fin (of_int a)) # ds)"
    by (cases "a \<le> b") (simp_all add: out' ds' amount_total_snoc balance_sum_Cons min_def)
  show "amount_total out' + balance_sum cs' = amount_total out + balance_sum ((c, Fin (of_int b)) # cs)"
    by (cases "b \<le> a") (auto simp: out' cs' amount_total_snoc balance_sum_Cons min_def)
qed

subsection \<open>the loop\<close>

lemma settle_loop_whole:
  assumes "whole_entries ds" "whole_entries cs"
  shows "\<exists>r dsf csf. settle_loop (ds, cs, out) = Some r \<and> (dsf = [] \<or> csf = []) \<and>
           whole_entries dsf \<and> whole_entries csf \<and>
           (whole_amounts out \<longrightarrow> whole_amounts r) \<and>
           (\<forall>f. paid_in r f + left_in dsf f = paid_in out f + left_in ds f \<and>
                received_in r f + left_in csf f = received_in out f + left_in cs f) \<and>
           amount_total r + balance_sum dsf = amount_total out + balance_sum ds \<and>
           amount_total r + balance_sum csf = amount_total out + balance_sum cs"
  using assms
proof (induction "length ds + length cs" arbitrary: ds cs out rule: less_induct)
  case less
  show ?case
  proof (cases "ds = [] \<or> cs = []")
    case True
    then have "settle_loop (ds, cs, out) = Some out" by (rule settle_loop_stop)
    with True less.prems show ?thesis by blast
  next
    case False
    then obtain e ds0 e' cs0 where ds: "ds = e # ds0" and cs: "cs = e' # cs0"
      by (cases ds; cases cs) auto
    have he: "whole (snd e)" "1 \<le> the_rat (snd e)" and rest: "whole_entries ds0"
      using less.prems(1) by (simp_all add: ds whole_entries_Cons)
    have he': "whole (snd e')" "1 \<le> the_rat (snd e')" and rest': "whole_entries cs0"
      using less.prems(2) by (simp_all add: cs whole_entries_Cons)
    from he obtain a where a: "snd e = Fin (of_int a)" "1 \<le> a" "a < 2 ^ 53"
      by (rule whole_entry_cases)
    from he' obtain b where b: "snd e' = Fin (of_int b)" "1 \<le> b" "b < 2 ^ 53"
      by (rule whole_entry_cases)
    obtain d c where e: "e = (d, Fin (of_int a))" and e': "e' = (c, Fin (of_int b))"
      using a(1) b(1) by (cases e; cases e') auto
    obtain ds' cs' out' where
      st: "settle_step ((d, Fin (of_int a)) # ds0, (c, Fin (of_int b)) # cs0, out) = (ds', cs', out')"
      by (cases "settle_step ((d, Fin (of_int a)) # ds0, (c, Fin (of_int b)) # cs0, out)") auto
    note facts = settle_step_whole_facts[OF a(2,3) b(2,3) rest rest' st]
    have "length ds' + length cs' < length ds + length cs"
      using facts(3) by (simp add: ds cs)
    from less.hyps[OF this facts(1) facts(2), of out']
    obtain r dsf csf where r: "settle_loop (ds', cs', out') = Some r"
      and fin: "dsf = [] \<or> csf = []" "whole_entries dsf" "whole_entries csf"
        "whole_amounts out' \<longrightarrow> whole_amounts r"
      and sums: "\<And>f. paid_in r f + left_in dsf f = paid_in out' f + left_in ds' f \<and>
                received_in r f + left_in csf f = received_in out' f + left_in cs' f"
      and tot: "amount_total r + balance_sum dsf = amount_total out' + balance_sum ds'"
        "amount_total r + balance_sum csf = amount_total out' + balance_sum cs'"
      by blast
    have loop: "settle_loop (ds, cs, out) = Some r"
      unfolding ds cs e e' by (subst settle_loop_Cons) (simp add: st r)
    have "paid_in r f + left_in dsf f = paid_in out f + left_in ds f \<and>
                received_in r f + left_in csf f = received_in out f + left_in cs f" for f
      using sums[of f] facts(5)[of f] facts(6)[of f] unfolding ds cs e e' by simp
    moreover have "amount_total r + balance_sum dsf = amount_total out + balance_sum ds"
      using tot(1) facts(7) unfolding ds e by simp
    moreover have "amount_total r + balance_sum csf = amount_total out + balance_sum cs"
      using tot(2) facts(8) unfolding cs e' by simp
    moreover have "whole_amounts out \<longrightarrow> whole_amounts r"
      using fin(4) facts(4) by blast
    ultimately show ?thesis using loop fin(1-3) by blast
  qed
qed


subsection \<open>debtors and creditors of a mapping\<close>

lemma left_in_mset: "mset xs = mset ys \<Longrightarrow> left_in xs f = left_in ys f"
proof -
  assume "mset xs = mset ys"
  then have "sum_mset (image_mset (\<lambda>e. if fst e = f then the_rat (snd e) else 0) (mset xs)) =
             sum_mset (image_mset (\<lambda>e. if fst e = f then the_rat (snd e) else 0) (mset ys))"
    by simp
  then show ?thesis
    unfolding left_in_def by (simp only: mset_map[symmetric] sum_mset_sum_list)
qed

lemma left_in_py_sort: "left_in (py_sort xs) f = left_in xs f"
  by (rule left_in_mset) (rule mset_py_sort)

lemma balance_sum_py_sort: "balance_sum (py_sort xs) = balance_sum xs"
proof -
  have "sum_mset (image_mset (\<lambda>e. the_rat (snd e)) (mset (py_sort xs))) =
        sum_mset (image_mset (\<lambda>e. the_rat (snd e)) (mset xs))"
    by (simp add: mset_py_sort)
  then show ?thesis
    unfolding balance_sum_def by (simp only: mset_map[symmetric] sum_mset_sum_list)
qed

lemma whole_entries_py_sort: "whole_entries (py_sort xs) = whole_entries xs"
  by (simp add: whole_entries_def list_all_iff set_py_sort)

lemma left_in_debtors_absent: "f \<notin> fst ` set bs \<Longrightarrow> left_in (spec_debtors bs) f = 0"
  by (induction bs) (auto simp: spec_debtors_def left_in_Cons left_in_Nil)

lemma left_in_creditors_absent: "f \<notin> fst ` set bs \<Longrightarrow> left_in (spec_creditors bs) f = 0"
  by (induction bs) (auto simp: spec_creditors_def left_in_Cons left_in_Nil)

lemma spec_debtors_Cons:
  "spec_debtors (a # bs) =
     (if flt (snd a) (fneg tol) then (fst a, fneg (snd a)) # spec_debtors bs else spec_debtors bs)"
  by (simp add: spec_debtors_def)

lemma spec_creditors_Cons:
  "spec_creditors (a # bs) =
     (if fgt (snd a) tol then a # spec_creditors bs else spec_creditors bs)"
  by (simp add: spec_creditors_def)

lemma left_in_debtors:
  assumes "distinct (map fst bs)" "e \<in> set bs"
  shows "left_in (spec_debtors bs) (fst e) =
           (if flt (snd e) (fneg tol) then the_rat (fneg (snd e)) else 0)"
  using assms
proof (induction bs)
  case Nil
  then show ?case by simp
next
  case (Cons a bs)
  show ?case
  proof (cases "e = a")
    case True
    have "fst a \<notin> fst ` set bs" using Cons.prems(1) by simp
    then have "left_in (spec_debtors bs) (fst a) = 0" by (rule left_in_debtors_absent)
    then show ?thesis by (simp add: True spec_debtors_Cons left_in_Cons)
  next
    case False
    then have e: "e \<in> set bs" using Cons.prems(2) by simp
    then have "fst a \<noteq> fst e" using Cons.prems(1) by auto
    moreover have "left_in (spec_debtors bs) (fst e) =
           (if flt (snd e) (fneg tol) then the_rat (fneg (snd e)) else 0)"
      using Cons.IH e Cons.prems(1) by simp
    ultimately show ?thesis by (simp add: spec_debtors_Cons left_in_Cons)
  qed
qed

lemma left_in_creditors:
  assumes "distinct (map fst bs)" "e \<in> set bs"
  shows "left_in (spec_creditors bs) (fst e) = (if fgt (snd e) tol then the_rat (snd e) else 0)"
  using assms
proof (induction bs)
  case Nil
  then show ?case by simp
next
  case (Cons a bs)
  show ?case
  proof (cases "e = a")
    case True
    have "fst a \<notin> fst ` set bs" using Cons.prems(1) by simp
    then have "left_in (spec_creditors bs) (fst a) = 0" by (rule left_in_creditors_absent)
    then show ?thesis by (simp add: True spec_creditors_Cons left_in_Cons)
  next
    case False
    then have e: "e \<in> set bs" using Cons.prems(2) by simp
    then have "fst a \<noteq> fst e" using Cons.prems(1) by auto
    moreover have "left_in (spec_creditors bs) (fst e) =
           (if fgt (snd e) tol then the_rat (snd e) else 0)"
      using Cons.IH e Cons.prems(1) by simp
    ultimately show ?thesis by (simp add: spec_creditors_Cons left_in_Cons)
  qed
qed

lemma whole_debtor:
  assumes "whole b" "flt b (fneg tol)"
  shows "whole (fneg b)" "1 \<le> the_rat (fneg b)"
proof -
  from assms(1) obtain n where n: "b = Fin (of_int n)" "\<bar>n\<bar> < 2 ^ 53" by (rule whole_cases)
  have "(of_int n :: rat) < - the_rat tol" using assms(2) n(1) by (simp add: tol_def)
  then have "(of_int n :: rat) < of_int 0" using tol_pos by simp
  then have "n < 0" by (simp only: of_int_less_iff)
  then have "1 \<le> - n" by simp
  then have "(of_int 1 :: rat) \<le> of_int (- n)" by (simp only: of_int_le_iff)
  then show "1 \<le> the_rat (fneg b)" by (simp add: n(1))
  have "whole (Fin (of_int (- n)))" using n(2) by (intro whole_of_int) simp
  then show "whole (fneg b)" by (simp add: n(1))
qed

lemma whole_creditor:
  assumes "whole b" "fgt b tol"
  shows "1 \<le> the_rat b"
proof -
  from assms(1) obtain n where n: "b = Fin (of_int n)" "\<bar>n\<bar> < 2 ^ 53" by (rule whole_cases)
  have "the_rat tol < of_int n" using assms(2) n(1) by (simp add: fgt_def tol_def)
  then have "1 \<le> n" by (simp add: tol_less_int)
  then have "(of_int 1 :: rat) \<le> of_int n" by (simp only: of_int_le_iff)
  then show ?thesis by (simp add: n(1))
qed

lemma whole_neutral:
  assumes "whole b" "\<not> flt b (fneg tol)" "\<not> fgt b tol"
  shows "b = Fin 0"
proof -
  from assms(1) obtain n where n: "b = Fin (of_int n)" "\<bar>n\<bar> < 2 ^ 53" by (rule whole_cases)
  have "\<not> the_rat tol < of_int n" using assms(3) n(1) by (simp add: fgt_def tol_def)
  then have 1: "n \<le> 0" by (simp add: tol_less_int)
  have "\<not> the_rat tol < of_int (- n)" using assms(2) n(1) by (simp add: tol_def)
  then have "- n \<le> 0" by (simp only: tol_less_int)
  with 1 have "n = 0" by simp
  then show ?thesis by (simp add: n(1))
qed

lemma whole_entries_spec_debtors:
  "\<forall>e \<in> set bs. whole (snd e) \<Longrightarrow> whole_entries (spec_debtors bs)"
  by (auto simp: whole_entries_def list_all_iff spec_debtors_def whole_debtor)

lemma whole_entries_spec_creditors:
  "\<forall>e \<in> set bs. whole (snd e) \<Longrightarrow> whole_entries (spec_creditors bs)"
  by (auto simp: whole_entries_def list_all_iff spec_creditors_def whole_creditor)

lemma balance_sum_split:
  assumes "\<forall>e \<in> set bs. whole (snd e)"
  shows "balance_sum bs = balance_sum (spec_creditors bs) - balance_sum (spec_debtors bs)"
  using assms
proof (induction bs)
  case Nil
  show ?case by (simp add: balance_sum_def spec_creditors_def spec_debtors_def)
next
  case (Cons a bs)
  have w: "whole (snd a)" using Cons.prems by simp
  have IH: "balance_sum bs = balance_sum (spec_creditors bs) - balance_sum (spec_debtors bs)"
    using Cons by simp
  have neg: "the_rat (fneg (snd a)) = - the_rat (snd a)" by (cases "snd a") simp_all
  consider (d) "flt (snd a) (fneg tol)" | (c) "\<not> flt (snd a) (fneg tol)" "fgt (snd a) tol"
    | (n) "\<not> flt (snd a) (fneg tol)" "\<not> fgt (snd a) tol" by blast
  then show ?case
  proof cases
    case d
    then have "\<not> fgt (snd a) tol" by (rule debtor_not_creditor)
    with d show ?thesis
      by (simp add: spec_debtors_Cons spec_creditors_Cons balance_sum_Cons IH neg)
  next
    case c
    then show ?thesis
      by (simp add: spec_debtors_Cons spec_creditors_Cons balance_sum_Cons IH)
  next
    case n
    with w have "snd a = Fin 0" by (rule whole_neutral)
    with n show ?thesis
      by (simp add: spec_debtors_Cons spec_creditors_Cons balance_sum_Cons IH)
  qed
qed

subsection \<open>applying whole transfers\<close>

lemma round_double_Ints:
  assumes "q \<in> \<int>" "\<bar>q\<bar> < 2 ^ 53"
  shows "round_double q = Fin q"
proof -
  from assms(1) obtain n where n: "q = of_int n" by (rule Ints_cases)
  have "(of_int \<bar>n\<bar> :: rat) < of_int (2 ^ 53)" using assms(2) n by simp
  then have "\<bar>n\<bar> < 2 ^ 53" by (simp only: of_int_less_iff)
  then show ?thesis unfolding n by (rule round_double_int)
qed

lemma whole_Ints: "whole x \<Longrightarrow> the_rat x \<in> \<int>"
  by (erule whole_cases) simp

lemma whole_finite: "whole x \<Longrightarrow> x = Fin (the_rat x)"
  by (cases x) simp_all

lemma whole_bound: "whole x \<Longrightarrow> \<bar>the_rat x\<bar> < 2 ^ 53"
  by (cases x) simp_all

lemma whole_amounts_append:
  "whole_amounts (ts @ us) \<longleftrightarrow> whole_amounts ts \<and> whole_amounts us"
  by (simp add: whole_amounts_def)

lemma paid_in_Ints: "whole_amounts ts \<Longrightarrow> paid_in ts f \<in> \<int> \<and> 0 \<le> paid_in ts f"
proof (induction ts rule: rev_induct)
  case Nil
  show ?case by (simp add: paid_in_def)
next
  case (snoc t ts)
  obtain p q a where t: "t = (p, q, a)" by (cases t)
  from snoc.prems have w: "whole_amounts ts" "whole a" "0 \<le> the_rat a"
    by (simp_all add: t whole_amounts_snoc)
  from snoc.IH[OF w(1)] whole_Ints[OF w(2)] w(3) show ?case
    by (simp add: t paid_in_snoc)
qed

lemma received_in_Ints: "whole_amounts ts \<Longrightarrow> received_in ts f \<in> \<int> \<and> 0 \<le> received_in ts f"
proof (induction ts rule: rev_induct)
  case Nil
  show ?case by (simp add: received_in_def)
next
  case (snoc t ts)
  obtain p q a where t: "t = (p, q, a)" by (cases t)
  from snoc.prems have w: "whole_amounts ts" "whole a" "0 \<le> the_rat a"
    by (simp_all add: t whole_amounts_snoc)
  from snoc.IH[OF w(1)] whole_Ints[OF w(2)] w(3) show ?case
    by (simp add: t received_in_snoc)
qed

lemma apply_paid_snoc:
  "apply_paid bs (ts @ [(p, q, a)]) = dict_add q (fneg a) (dict_add p a (apply_paid bs ts))"
  by (simp add: apply_paid_def)

lemma apply_paid_Nil: "apply_paid bs [] = bs"
  by (simp add: apply_paid_def)

lemma within_bounds_prefix:
  assumes "within_bounds bs (ts @ [(p, q, a)])" "whole_amounts ts" "0 \<le> the_rat a"
  shows "within_bounds bs ts"
  unfolding within_bounds_def
proof (intro ballI conjI impI)
  fix e assume e: "e \<in> set bs"
  note P = paid_in_Ints[OF assms(2), of "fst e"]
  note R = received_in_Ints[OF assms(2), of "fst e"]
  {
    assume neg: "the_rat (snd e) < 0"
    with assms(1) e have
      b: "received_in (ts @ [(p, q, a)]) (fst e) = 0"
         "paid_in (ts @ [(p, q, a)]) (fst e) \<le> - the_rat (snd e)"
      by (auto simp: within_bounds_def)
    show "received_in ts (fst e) = 0"
      using b(1) R assms(3) by (simp add: received_in_snoc split: if_splits)
    show "paid_in ts (fst e) \<le> - the_rat (snd e)"
      using b(2) assms(3) by (simp add: paid_in_snoc split: if_splits)
  }
  {
    assume pos: "0 \<le> the_rat (snd e)"
    with assms(1) e have
      b: "paid_in (ts @ [(p, q, a)]) (fst e) = 0"
         "received_in (ts @ [(p, q, a)]) (fst e) \<le> the_rat (snd e)"
      by (auto simp: within_bounds_def)
    show "paid_in ts (fst e) = 0"
      using b(1) P assms(3) by (simp add: paid_in_snoc split: if_splits)
    show "received_in ts (fst e) \<le> the_rat (snd e)"
      using b(2) assms(3) by (simp add: received_in_snoc split: if_splits)
  }
qed

lemma apply_paid_whole:
  assumes bs: "\<forall>e \<in> set bs. whole (snd e)"
  shows "whole_amounts ts \<Longrightarrow> \<forall>t \<in> set ts. fst t \<noteq> fst (snd t) \<Longrightarrow> within_bounds bs ts \<Longrightarrow>
     apply_paid bs ts =
       map (\<lambda>e. (fst e, Fin (the_rat (snd e) + paid_in ts (fst e) - received_in ts (fst e)))) bs"
proof (induction ts rule: rev_induct)
  case Nil
  have "e = (fst e, Fin (the_rat (snd e)))" if "e \<in> set bs" for e
    using bs that whole_finite[of "snd e"] by (cases e) auto
  then show ?case
    by (simp add: apply_paid_Nil paid_in_def received_in_def map_idI)
next
  case (snoc t ts)
  obtain p q a where t: "t = (p, q, a)" by (cases t)
  from snoc.prems(1) have w: "whole_amounts ts" "whole a" "0 \<le> the_rat a"
    by (simp_all add: t whole_amounts_snoc)
  have pq: "p \<noteq> q" using snoc.prems(2) by (simp add: t)
  have wb: "within_bounds bs ts"
    using snoc.prems(3) w(1,3) unfolding t by (rule within_bounds_prefix)
  have IH: "apply_paid bs ts =
       map (\<lambda>e. (fst e, Fin (the_rat (snd e) + paid_in ts (fst e) - received_in ts (fst e)))) bs"
    using snoc.IH w(1) snoc.prems(2) wb by simp
  define v where "v = (\<lambda>e :: entry. the_rat (snd e) + paid_in ts (fst e) - received_in ts (fst e))"
  define v' where "v' = (\<lambda>e :: entry. the_rat (snd e) + paid_in (ts @ [t]) (fst e) -
      received_in (ts @ [t]) (fst e))"
  have a: "a = Fin (the_rat a)" using w(2) by (rule whole_finite)
  have step: "(if fst e = q then (fst e, fadd (snd (if fst e = p then (fst e, fadd (Fin (v e)) a)
                 else (fst e, Fin (v e)))) (fneg a))
               else (if fst e = p then (fst e, fadd (Fin (v e)) a) else (fst e, Fin (v e)))) =
              (fst e, Fin (v' e))" if e: "e \<in> set bs" for e
  proof -
    have we: "whole (snd e)" using bs e by simp
    have I: "v' e \<in> \<int>"
      unfolding v'_def
      using whole_Ints[OF we] paid_in_Ints[OF snoc.prems(1), of "fst e"]
        received_in_Ints[OF snoc.prems(1), of "fst e"] by simp
    have B: "\<bar>v' e\<bar> < 2 ^ 53"
    proof (cases "the_rat (snd e) < 0")
      case True
      with snoc.prems(3) e have "received_in (ts @ [t]) (fst e) = 0"
        "paid_in (ts @ [t]) (fst e) \<le> - the_rat (snd e)"
        by (auto simp: within_bounds_def)
      then show ?thesis
        unfolding v'_def
        using paid_in_Ints[OF snoc.prems(1), of "fst e"] whole_bound[OF we] True by simp
    next
      case False
      with snoc.prems(3) e have "paid_in (ts @ [t]) (fst e) = 0"
        "received_in (ts @ [t]) (fst e) \<le> the_rat (snd e)"
        by (auto simp: within_bounds_def)
      then show ?thesis
        unfolding v'_def
        using received_in_Ints[OF snoc.prems(1), of "fst e"] whole_bound[OF we] False by simp
    qed
    have R: "round_double (v' e) = Fin (v' e)" using I B by (rule round_double_Ints)
    show ?thesis
    proof (cases "fst e = p")
      case True
      then have "v' e = v e + the_rat a"
        using pq by (simp add: v'_def v_def t paid_in_snoc received_in_snoc)
      with R have "fadd (Fin (v e)) a = Fin (v' e)" by (subst a) simp
      with True pq show ?thesis by simp
    next
      case False
      show ?thesis
      proof (cases "fst e = q")
        case True
        then have "v' e = v e + - the_rat a"
          using False by (simp add: v'_def v_def t paid_in_snoc received_in_snoc)
        with R have "fadd (Fin (v e)) (fneg a) = Fin (v' e)" by (subst a) simp
        with True False show ?thesis by simp
      next
        case q: False
        then have "v' e = v e"
          using False by (simp add: v'_def v_def t paid_in_snoc received_in_snoc)
        with q False show ?thesis by simp
      qed
    qed
  qed
  have "apply_paid bs (ts @ [t]) =
      map (\<lambda>e. if fst e = q then (fst e, fadd (snd (if fst e = p then (fst e, fadd (Fin (v e)) a)
                 else (fst e, Fin (v e)))) (fneg a))
               else (if fst e = p then (fst e, fadd (Fin (v e)) a) else (fst e, Fin (v e)))) bs"
    unfolding t apply_paid_snoc IH dict_add_def v_def by (simp add: if_distrib cong: if_cong)
  also have "\<dots> = map (\<lambda>e. (fst e, Fin (v' e))) bs"
    using step by (simp cong: map_cong)
  finally show ?case by (simp add: v'_def)
qed

subsection \<open>what a transfer is\<close>

lemma settle_loop_amounts:
  assumes "settle_loop s = Some r"
  shows "\<forall>t \<in> set r. t \<in> set (snd (snd s)) \<or> fgt (snd (snd t)) tol"
proof (rule settle_loop.raw_induct[where P = "\<lambda>s r. \<forall>t \<in> set r. t \<in> set (snd (snd s)) \<or>
           fgt (snd (snd t)) tol", OF _ assms])
  fix f :: "entry list \<times> entry list \<times> transfer list \<Rightarrow> transfer list option"
  fix s r
  assume IH: "\<And>x y. f x = Some y \<Longrightarrow> \<forall>t \<in> set y. t \<in> set (snd (snd x)) \<or> fgt (snd (snd t)) tol"
  assume eq: "(if fst s \<noteq> [] \<and> fst (snd s) \<noteq> [] then f (settle_step s) else Some (snd (snd s))) = Some r"
  obtain ds cs out where s: "s = (ds, cs, out)"
    by (cases s) auto
  show "\<forall>t \<in> set r. t \<in> set (snd (snd s)) \<or> fgt (snd (snd t)) tol"
  proof (cases "ds = [] \<or> cs = []")
    case True
    with eq s have "r = out" by auto
    then show ?thesis by (simp add: s)
  next
    case False
    then obtain d x ds0 c y cs0 where ds: "ds = (d, x) # ds0" and cs: "cs = (c, y) # cs0"
      by (cases ds; cases cs) auto
    obtain ds' cs' out' where st: "settle_step s = (ds', cs', out')"
      by (cases "settle_step s") auto
    have sub: "\<forall>t \<in> set out'. t \<in> set out \<or> fgt (snd (snd t)) tol"
      using st unfolding s ds cs settle_step_Cons by (auto split: if_splits)
    from eq s ds cs have "f (settle_step s) = Some r" by simp
    from IH[OF this] have "\<forall>t \<in> set r. t \<in> set out' \<or> fgt (snd (snd t)) tol"
      by (simp add: st)
    with sub show ?thesis unfolding s by auto
  qed
qed

lemma calculate_settlements_transfer:
  assumes "calculate_settlements bs = Some ts" "t \<in> set ts"
  shows "is_debtor bs (fst t)" "is_creditor bs (fst (snd t))" "fgt (snd (snd t)) tol"
proof -
  from calculate_settlements_names(1)[OF assms]
  obtain e where "e \<in> set bs" "fst e = fst t" "flt (snd e) (fneg tol)"
    by (auto simp: spec_debtors_def)
  then show "is_debtor bs (fst t)"
    unfolding is_debtor_def list_ex_iff by blast
  from calculate_settlements_names(2)[OF assms]
  obtain e where "e \<in> set bs" "fst e = fst (snd t)" "fgt (snd e) tol"
    by (auto simp: spec_creditors_def)
  then show "is_creditor bs (fst (snd t))"
    unfolding is_creditor_def list_ex_iff by blast
  have "settle_loop (py_sort (spec_debtors bs), py_sort (spec_creditors bs), []) = Some ts"
    using assms(1) by (simp add: calculate_settlements_unfold)
  from settle_loop_amounts[OF this] assms(2) show "fgt (snd (snd t)) tol" by simp
qed

lemma debtor_creditor_distinct:
  assumes "distinct (map fst bs)" "is_debtor bs f"
  shows "\<not> is_creditor bs f"
proof
  assume "is_creditor bs f"
  then obtain e' where e': "e' \<in> set bs" "fst e' = f" "fgt (snd e') tol"
    by (auto simp: is_creditor_def list_ex_iff)
  from assms(2) obtain e where e: "e \<in> set bs" "fst e = f" "flt (snd e) (fneg tol)"
    by (auto simp: is_debtor_def list_ex_iff)
  have "e' = e" using e(1,2) e'(1,2) assms(1) by (meson distinct_map inj_onD)
  with e(3) e'(3) debtor_not_creditor show False by blast
qed

subsection \<open>the settlement of whole balances\<close>

lemma whole_settlement:
  assumes d: "distinct (map fst bs)" and w: "\<forall>e \<in> set bs. whole (snd e)"
  shows "\<exists>ts dsf csf. calculate_settlements bs = Some ts \<and> (dsf = [] \<or> csf = []) \<and>
     whole_entries dsf \<and> whole_entries csf \<and> whole_amounts ts \<and>
     (\<forall>f. paid_in ts f + left_in dsf f = left_in (spec_debtors bs) f \<and>
          received_in ts f + left_in csf f = left_in (spec_creditors bs) f) \<and>
     balance_sum csf - balance_sum dsf = balance_sum bs"
proof -
  let ?ds = "py_sort (spec_debtors bs)" and ?cs = "py_sort (spec_creditors bs)"
  have wds: "whole_entries ?ds" and wcs: "whole_entries ?cs"
    using w by (simp_all add: whole_entries_py_sort whole_entries_spec_debtors
        whole_entries_spec_creditors)
  from settle_loop_whole[OF wds wcs, of "[]"]
  obtain ts dsf csf where ts: "settle_loop (?ds, ?cs, []) = Some ts"
    and fin: "dsf = [] \<or> csf = []" "whole_entries dsf" "whole_entries csf"
    and wa: "whole_amounts [] \<longrightarrow> whole_amounts ts"
    and sums: "\<And>f. paid_in ts f + left_in dsf f = paid_in [] f + left_in ?ds f \<and>
                received_in ts f + left_in csf f = received_in [] f + left_in ?cs f"
    and tot: "amount_total ts + balance_sum dsf = amount_total [] + balance_sum ?ds"
      "amount_total ts + balance_sum csf = amount_total [] + balance_sum ?cs"
    by blast
  have c: "calculate_settlements bs = Some ts"
    by (simp add: calculate_settlements_unfold ts)
  have amounts: "whole_amounts ts" using wa by (simp add: whole_amounts_def)
  have s: "paid_in ts f + left_in dsf f = left_in (spec_debtors bs) f \<and>
          received_in ts f + left_in csf f = left_in (spec_creditors bs) f" for f
    using sums[of f] by (simp add: paid_in_def received_in_def left_in_py_sort)
  have "balance_sum csf - balance_sum dsf =
        balance_sum (spec_creditors bs) - balance_sum (spec_debtors bs)"
    using tot by (simp add: amount_total_def balance_sum_py_sort)
  then have "balance_sum csf - balance_sum dsf = balance_sum bs"
    using balance_sum_split[OF w] by simp
  with c fin amounts s show ?thesis by blast
qed

text \<open>
  Claim C2, as stated: applying every emitted transfer, subtracting the amount from the
  payer's balance and adding it to the payee's, leaves every balance within 0.01 of
  zero. The five balances below are doubles and sum to zero. Each debtor owes
  \<open>1 + 1/128\<close>, is matched with a creditor of 1 and dropped with \<open>1/128 < 0.01\<close> still
  owed, so the creditor of \<open>1/64 > 0.01\<close> is never paid: applied as stated the two
  transfers double every imbalance, and applied the other way round (the payer's
  balance rises) they still leave \<open>1/64\<close>.
\<close>

lemma double_128: "round_double (1 / 128) = Fin (1 / 128)"
  by (rule round_double_exact[of _ 1 "- 7"]) (simp_all add: pow2_def)

lemma double_257_128: "round_double (257 / 128) = Fin (257 / 128)"
  by (rule round_double_exact[of _ 257 "- 7"]) (simp_all add: pow2_def)

theorem settlement_correctness_counterexample:
  "calculate_settlements
     [(''D1'', Fin (- (129 / 128))), (''D2'', Fin (- (129 / 128))),
      (''C1'', Fin 1), (''C2'', Fin 1), (''C3'', Fin (1 / 64))] =
     Some [(''D1'', ''C1'', Fin 1), (''D2'', ''C2'', Fin 1)] \<and>
   balance_sum
     [(''D1'', Fin (- (129 / 128))), (''D2'', Fin (- (129 / 128))),
      (''C1'', Fin 1), (''C2'', Fin 1), (''C3'', Fin (1 / 64))] = 0 \<and>
   apply_stated
     [(''D1'', Fin (- (129 / 128))), (''D2'', Fin (- (129 / 128))),
      (''C1'', Fin 1), (''C2'', Fin 1), (''C3'', Fin (1 / 64))]
     [(''D1'', ''C1'', Fin 1), (''D2'', ''C2'', Fin 1)] =
     [(''D1'', Fin (- (257 / 128))), (''D2'', Fin (- (257 / 128))),
      (''C1'', Fin 2), (''C2'', Fin 2), (''C3'', Fin (1 / 64))] \<and>
   \<not> near_zero (Fin (- (257 / 128))) \<and>
   apply_paid
     [(''D1'', Fin (- (129 / 128))), (''D2'', Fin (- (129 / 128))),
      (''C1'', Fin 1), (''C2'', Fin 1), (''C3'', Fin (1 / 64))]
     [(''D1'', ''C1'', Fin 1), (''D2'', ''C2'', Fin 1)] =
     [(''D1'', Fin (- (1 / 128))), (''D2'', Fin (- (1 / 128))),
      (''C1'', Fin 0), (''C2'', Fin 0), (''C3'', Fin (1 / 64))] \<and>
   \<not> near_zero (Fin (1 / 64))"
proof -
  have m: "round_double (- (1 / 128)) = Fin (- (1 / 128))"
    "round_double (- (257 / 128)) = Fin (- (257 / 128))"
    using round_double_minus[of "1 / 128"] round_double_minus[of "257 / 128"]
    by (simp_all add: double_128 double_257_128)
  show ?thesis
    by (simp add: calculate_settlements_def py_sort_def sort_key_def key_less_def fgt_def
        settle_loop.simps settle_step_Fin tol_def round_double_zero double_128 m
        round_double_numeral balance_sum_def apply_stated_def apply_paid_def dict_add_def)
qed

text \<open>
  Nor does a family always end within 0.01 when its own list has been emptied. In
  \<^verbatim>\<open>{"D1": -0.013, "D2": -0.013, "C": 0.023}\<close> (the doubles nearest to these decimals)
  the first round leaves the creditor with \<^verbatim>\<open>0.023 - 0.013\<close>, which is the double
  \<^verbatim>\<open>0.01\<close> itself; it is not below \<^verbatim>\<open>0.01\<close>, so the creditor stays, and the second
  round takes the amount \<^verbatim>\<open>0.01\<close>, which is not above \<^verbatim>\<open>0.01\<close>: no transfer is
  emitted, yet \<^verbatim>\<open>D2\<close> is decremented and dropped. Both lists are empty and \<^verbatim>\<open>D2\<close>
  has paid nothing.
\<close>

lemma double_013: "round_double (13 / 1000) = Fin (7493989779944505 / 576460752303423488)"
proof -
  have "round_double (13 / 1000) = Fin (of_int 7493989779944505 * pow2 (- 7 - 52))"
    by (rule round_double_eqI) (simp_all add: pow2_def)
  then show ?thesis by (simp add: pow2_def)
qed

lemma double_023: "round_double (23 / 1000) = Fin (3314649325744685 / 144115188075855872)"
proof -
  have "round_double (23 / 1000) = Fin (of_int 6629298651489370 * pow2 (- 6 - 52))"
    by (rule round_double_eqI) (simp_all add: pow2_def)
  then show ?thesis by (simp add: pow2_def)
qed

lemma double_013_rest:
  "round_double (864691128455135 / 288230376151711744) =
     Fin (864691128455135 / 288230376151711744)"
  by (rule round_double_exact[of _ 864691128455135 "- 58"]) (simp_all add: pow2_def)

lemma double_tol: "round_double (5764607523034235 / 576460752303423488) =
     Fin (5764607523034235 / 576460752303423488)"
  by (rule round_double_exact[of _ 5764607523034235 "- 59"]) (simp_all add: pow2_def)

lemma emptied_side_left_unpaid:
  "calculate_settlements
     [(''D1'', fneg (round_double (13 / 1000))), (''D2'', fneg (round_double (13 / 1000))),
      (''C'', round_double (23 / 1000))] =
     Some [(''D1'', ''C'', round_double (13 / 1000))] \<and>
   apply_paid
     [(''D1'', fneg (round_double (13 / 1000))), (''D2'', fneg (round_double (13 / 1000))),
      (''C'', round_double (23 / 1000))]
     [(''D1'', ''C'', round_double (13 / 1000))] =
     [(''D1'', Fin 0), (''D2'', fneg (round_double (13 / 1000))), (''C'', tol)] \<and>
   \<not> near_zero (fneg (round_double (13 / 1000)))"
  unfolding double_013 double_023
  by (simp add: calculate_settlements_def py_sort_def sort_key_def key_less_def fgt_def
      settle_loop.simps settle_step_Fin tol_def round_double_zero double_013_rest double_tol
      apply_paid_def dict_add_def)

text \<open>
  Claim C2, amended. For every balance mapping, every transfer that
  \<^verbatim>\<open>calculate_settlements\<close> emits goes from a family whose balance is below \<open>-0.01\<close>
  to a family whose balance is above \<open>0.01\<close>, with an amount above \<open>0.01\<close>. For every
  balance mapping (a dictionary, so with distinct family names) whose balances are
  whole numbers that a double holds exactly, \<^verbatim>\<open>calculate_settlements\<close> returns, and
  adding each transfer's amount to the payer's balance and subtracting it from the
  payee's moves no balance away from zero or across it and leaves no negative balance
  or leaves no positive balance; if the balances sum to zero, every balance ends at
  exactly zero.
\<close>

theorem settlement_of_whole_balances:
  "(\<forall>ts. calculate_settlements bs = Some ts \<longrightarrow>
      (\<forall>t \<in> set ts. is_debtor bs (fst t) \<and> is_creditor bs (fst (snd t)) \<and>
                     fgt (snd (snd t)) tol)) \<and>
   (distinct (map fst bs) \<longrightarrow> list_all (\<lambda>e. whole (snd e)) bs \<longrightarrow>
      (\<exists>ts. calculate_settlements bs = Some ts \<and>
            list_all2 moved_toward_zero bs (apply_paid bs ts) \<and>
            (list_all (\<lambda>e. fge0 (snd e)) (apply_paid bs ts) \<or>
             list_all (\<lambda>e. fge0 (fneg (snd e))) (apply_paid bs ts)) \<and>
            (balance_sum bs = 0 \<longrightarrow> list_all (\<lambda>e. snd e = Fin 0) (apply_paid bs ts))))"
proof (intro conjI allI impI ballI)
  fix ts t
  assume a: "calculate_settlements bs = Some ts" "t \<in> set ts"
  show "is_debtor bs (fst t)" "is_creditor bs (fst (snd t))" "fgt (snd (snd t)) tol"
    using calculate_settlements_transfer[OF a] by simp_all
next
  assume d: "distinct (map fst bs)" and "list_all (\<lambda>e. whole (snd e)) bs"
  then have w: "\<forall>e \<in> set bs. whole (snd e)" by (simp add: list_all_iff)
  from whole_settlement[OF d w] obtain ts dsf csf where
    c: "calculate_settlements bs = Some ts" and fin: "dsf = [] \<or> csf = []"
    and wl: "whole_entries dsf" "whole_entries csf" and wa: "whole_amounts ts"
    and sums: "\<And>f. paid_in ts f + left_in dsf f = left_in (spec_debtors bs) f \<and>
          received_in ts f + left_in csf f = left_in (spec_creditors bs) f"
    and tot: "balance_sum csf - balance_sum dsf = balance_sum bs"
    by blast
  define v where "v = (\<lambda>e :: entry. the_rat (snd e) + paid_in ts (fst e) - received_in ts (fst e))"
  have facts: "(the_rat (snd e) < 0 \<longrightarrow>
        received_in ts (fst e) = 0 \<and> paid_in ts (fst e) + left_in dsf (fst e) = - the_rat (snd e)) \<and>
      (0 \<le> the_rat (snd e) \<longrightarrow>
        paid_in ts (fst e) = 0 \<and> received_in ts (fst e) + left_in csf (fst e) = the_rat (snd e)) \<and>
      0 \<le> paid_in ts (fst e) \<and> 0 \<le> received_in ts (fst e) \<and>
      0 \<le> left_in dsf (fst e) \<and> 0 \<le> left_in csf (fst e)"
    if e: "e \<in> set bs" for e
  proof -
    have we: "whole (snd e)" using w e by simp
    note P = paid_in_Ints[OF wa, of "fst e"]
    note R = received_in_Ints[OF wa, of "fst e"]
    note Ld = whole_entries_nonneg[OF wl(1), of "fst e"]
    note Lc = whole_entries_nonneg[OF wl(2), of "fst e"]
    note D = left_in_debtors[OF d e]
    note C = left_in_creditors[OF d e]
    have neg: "the_rat (fneg (snd e)) = - the_rat (snd e)" by (cases "snd e") simp_all
    consider (deb) "flt (snd e) (fneg tol)" | (cre) "\<not> flt (snd e) (fneg tol)" "fgt (snd e) tol"
      | (neu) "\<not> flt (snd e) (fneg tol)" "\<not> fgt (snd e) tol" by blast
    then show ?thesis
    proof cases
      case deb
      then have nc: "\<not> fgt (snd e) tol" by (rule debtor_not_creditor)
      have "1 \<le> the_rat (fneg (snd e))" using we deb by (rule whole_debtor(2))
      then have "the_rat (snd e) < 0" by (simp add: neg)
      then show ?thesis
        using sums[of "fst e"] D C deb nc P R Ld Lc by (simp add: neg)
    next
      case cre
      have "1 \<le> the_rat (snd e)" using we cre(2) by (rule whole_creditor)
      then show ?thesis
        using sums[of "fst e"] D C cre P R Ld Lc by simp
    next
      case neu
      with we have "snd e = Fin 0" by (rule whole_neutral)
      then show ?thesis
        using sums[of "fst e"] D C neu P R Ld Lc by simp
    qed
  qed
  have wb: "within_bounds bs ts"
    unfolding within_bounds_def
  proof (intro ballI)
    fix e assume "e \<in> set bs"
    from facts[OF this] show "(the_rat (snd e) < 0 \<longrightarrow>
           received_in ts (fst e) = 0 \<and> paid_in ts (fst e) \<le> - the_rat (snd e)) \<and>
        (0 \<le> the_rat (snd e) \<longrightarrow>
           paid_in ts (fst e) = 0 \<and> received_in ts (fst e) \<le> the_rat (snd e))"
      by auto
  qed
  have neq: "\<forall>t \<in> set ts. fst t \<noteq> fst (snd t)"
  proof
    fix t assume t: "t \<in> set ts"
    from calculate_settlements_transfer(1,2)[OF c t] debtor_creditor_distinct[OF d]
    show "fst t \<noteq> fst (snd t)" by metis
  qed
  have ap: "apply_paid bs ts = map (\<lambda>e. (fst e, Fin (v e))) bs"
    unfolding v_def using w wa neq wb by (rule apply_paid_whole)
  have moved: "moved_toward_zero e (fst e, Fin (v e))" if e: "e \<in> set bs" for e
  proof -
    have fe: "snd e = Fin (the_rat (snd e))" using w e whole_finite by blast
    from facts[OF e] have "toward_zero (Fin (the_rat (snd e))) (Fin (v e))"
      unfolding v_def by (cases "the_rat (snd e) < 0") auto
    then show ?thesis unfolding moved_toward_zero_def using fe by simp
  qed
  have 1: "list_all2 moved_toward_zero bs (apply_paid bs ts)"
    unfolding ap using moved by (simp add: list_all2_map2 list.rel_refl_strong)
  have nodebt: "0 \<le> v e" if "dsf = []" "e \<in> set bs" for e
    using facts[OF that(2)] that(1) unfolding v_def
    by (cases "the_rat (snd e) < 0") (auto simp: left_in_Nil)
  have nocredit: "v e \<le> 0" if "csf = []" "e \<in> set bs" for e
    using facts[OF that(2)] that(1) unfolding v_def
    by (cases "the_rat (snd e) < 0") (auto simp: left_in_Nil)
  have 2: "list_all (\<lambda>e. fge0 (snd e)) (apply_paid bs ts) \<or>
           list_all (\<lambda>e. fge0 (fneg (snd e))) (apply_paid bs ts)"
    using fin
  proof
    assume "dsf = []"
    then have "list_all (\<lambda>e. fge0 (snd e)) (apply_paid bs ts)"
      unfolding ap using nodebt by (simp add: list_all_iff)
    then show ?thesis ..
  next
    assume "csf = []"
    then have "list_all (\<lambda>e. fge0 (fneg (snd e))) (apply_paid bs ts)"
      unfolding ap using nocredit by (simp add: list_all_iff)
    then show ?thesis ..
  qed
  have 3: "list_all (\<lambda>e. snd e = Fin 0) (apply_paid bs ts)" if z: "balance_sum bs = 0"
  proof -
    have eq: "balance_sum csf = balance_sum dsf" using tot z by simp
    have both: "dsf = [] \<and> csf = []"
      using fin
    proof
      assume e: "dsf = []"
      then have "balance_sum csf = 0" using eq by (simp add: balance_sum_def)
      with wl(2) have "csf = []" by (rule whole_entries_total)
      with e show ?thesis by simp
    next
      assume e: "csf = []"
      then have "balance_sum dsf = 0" using eq by (simp add: balance_sum_def)
      with wl(1) have "dsf = []" by (rule whole_entries_total)
      with e show ?thesis by simp
    qed
    have "v e = 0" if "e \<in> set bs" for e
      using nodebt[OF _ that] nocredit[OF _ that] both by force
    then show ?thesis unfolding ap by (simp add: list_all_iff)
  qed
  from c 1 2 3 show "\<exists>ts. calculate_settlements bs = Some ts \<and>
            list_all2 moved_toward_zero bs (apply_paid bs ts) \<and>
            (list_all (\<lambda>e. fge0 (snd e)) (apply_paid bs ts) \<or>
             list_all (\<lambda>e. fge0 (fneg (snd e))) (apply_paid bs ts)) \<and>
            (balance_sum bs = 0 \<longrightarrow> list_all (\<lambda>e. snd e = Fin 0) (apply_paid bs ts))"
    by blast
qed

theorem settlement_of_whole_balances_witness:
  "distinct (map fst [(''Adams'', Fin 40), (''Oiler'', Fin (- 25)), (''Baker'', Fin (- 15)),
      (''Cole'', Fin 0)]) \<and>
   list_all (\<lambda>e. whole (snd e)) [(''Adams'', Fin 40), (''Oiler'', Fin (- 25)),
      (''Baker'', Fin (- 15)), (''Cole'', Fin 0)] \<and>
   balance_sum [(''Adams'', Fin 40), (''Oiler'', Fin (- 25)), (''Baker'', Fin (- 15)),
      (''Cole'', Fin 0)] = 0 \<and>
   calculate_settlements [(''Adams'', Fin 40), (''Oiler'', Fin (- 25)), (''Baker'', Fin (- 15)),
      (''Cole'', Fin 0)] =
     Some [(''Oiler'', ''Adams'', Fin 25), (''Baker'', ''Adams'', Fin 15)] \<and>
   is_debtor [(''Adams'', Fin 40), (''Oiler'', Fin (- 25)), (''Baker'', Fin (- 15)),
      (''Cole'', Fin 0)] ''Oiler'' \<and>
   is_creditor [(''Adams'', Fin 40), (''Oiler'', Fin (- 25)), (''Baker'', Fin (- 15)),
      (''Cole'', Fin 0)] ''Adams'' \<and>
   fgt (Fin 25) tol \<and>
   list_all (\<lambda>e. snd e = Fin 0)
     (apply_paid [(''Adams'', Fin 40), (''Oiler'', Fin (- 25)), (''Baker'', Fin (- 15)),
        (''Cole'', Fin 0)]
       [(''Oiler'', ''Adams'', Fin 25), (''Baker'', ''Adams'', Fin 15)]) \<and>
   list_all2 moved_toward_zero
     [(''Adams'', Fin 40), (''Oiler'', Fin (- 25)), (''Baker'', Fin (- 15)), (''Cole'', Fin 0)]
     (apply_paid [(''Adams'', Fin 40), (''Oiler'', Fin (- 25)), (''Baker'', Fin (- 15)),
        (''Cole'', Fin 0)]
       [(''Oiler'', ''Adams'', Fin 25), (''Baker'', ''Adams'', Fin 15)])"
proof -
  let ?bs = "[(''Adams'', Fin 40), (''Oiler'', Fin (- 25)), (''Baker'', Fin (- 15)),
      (''Cole'', Fin 0)]"
  let ?ts = "[(''Oiler'', ''Adams'', Fin 25), (''Baker'', ''Adams'', Fin 15)]"
  have d: "distinct (map fst ?bs)" by simp
  have w: "list_all (\<lambda>e. whole (snd e)) ?bs" by simp
  have z: "balance_sum ?bs = 0" by (simp add: balance_sum_def)
  have c: "calculate_settlements ?bs = Some ?ts"
    by (simp add: calculate_settlements_def py_sort_def sort_key_def key_less_def fgt_def
        settle_loop.simps settle_step_Fin tol_def round_double_zero round_double_numeral)
  note main = settlement_of_whole_balances[of ?bs]
  have t: "(''Oiler'', ''Adams'', Fin 25) \<in> set ?ts" by simp
  from main[THEN conjunct1, rule_format, OF c t]
  have first: "is_debtor ?bs ''Oiler''" "is_creditor ?bs ''Adams''" "fgt (Fin 25) tol"
    by simp_all
  from main[THEN conjunct2, rule_format, OF d w] c
  have rest: "list_all2 moved_toward_zero ?bs (apply_paid ?bs ?ts)"
    "balance_sum ?bs = 0 \<longrightarrow> list_all (\<lambda>e. snd e = Fin 0) (apply_paid ?bs ?ts)"
    by auto
  from rest(2) z have zero: "list_all (\<lambda>e. snd e = Fin 0) (apply_paid ?bs ?ts)" by blast
  from d w z c first zero rest(1) show ?thesis by (intro conjI)
qed


section \<open>Validation and person-nights\<close>

lemma find_unknown_members_filter:
  "find_unknown_members mtf stays =
     filter (\<lambda>m. m \<notin> fst ` set mtf) (map member_name stays)"
proof -
  have "foldl (\<lambda>unknown stay. if member_name stay \<notin> fst ` set mtf
                 then unknown @ [member_name stay] else unknown) acc stays =
        acc @ filter (\<lambda>m. m \<notin> fst ` set mtf) (map member_name stays)" for acc
    by (induction stays arbitrary: acc) auto
  then show ?thesis by (simp add: find_unknown_members_def)
qed

lemma find_unknown_families_filter:
  "find_unknown_families mtf expenses =
     filter (\<lambda>f. f \<notin> snd ` set mtf) (map paid_by_family expenses)"
proof -
  have "foldl (\<lambda>unknown e. if paid_by_family e \<notin> snd ` set mtf
                 then unknown @ [paid_by_family e] else unknown) acc expenses =
        acc @ filter (\<lambda>f. f \<notin> snd ` set mtf) (map paid_by_family expenses)" for acc
    by (induction expenses arbitrary: acc) auto
  then show ?thesis by (simp add: find_unknown_families_def)
qed

lemma person_nights_loop_known:
  "\<forall>s \<in> set stays. member_name s \<in> fst ` set mtf \<Longrightarrow>
   \<exists>fn. person_nights_loop stays mtf acc = Inr fn"
proof (induction stays arbitrary: acc)
  case Nil
  show ?case by simp
next
  case (Cons s stays)
  then obtain family where "map_of mtf (member_name s) = Some family"
    by (cases "map_of mtf (member_name s)") (auto simp: map_of_eq_None_iff)
  with Cons show ?case by (simp add: Let_def)
qed

lemma person_nights_loop_unknown:
  "filter (\<lambda>m. m \<notin> fst ` set mtf) (map member_name stays) \<noteq> [] \<Longrightarrow>
   person_nights_loop stays mtf acc =
     Inl (KeyError (hd (filter (\<lambda>m. m \<notin> fst ` set mtf) (map member_name stays))))"
proof (induction stays arbitrary: acc)
  case Nil
  then show ?case by simp
next
  case (Cons s stays)
  show ?case
  proof (cases "member_name s \<in> fst ` set mtf")
    case True
    then obtain family where "map_of mtf (member_name s) = Some family"
      by (cases "map_of mtf (member_name s)") (auto simp: map_of_eq_None_iff)
    with True Cons show ?thesis by (simp add: Let_def)
  next
    case False
    then have "map_of mtf (member_name s) = None"
      by (simp add: map_of_eq_None_iff)
    with False show ?thesis by (simp add: Let_def)
  qed
qed

lemma calculate_person_nights_known:
  assumes "find_unknown_members mtf stays = []"
  shows "\<exists>fn. calculate_person_nights stays mtf = Inr fn"
proof -
  from assms have "\<forall>s \<in> set stays. member_name s \<in> fst ` set mtf"
    by (auto simp: find_unknown_members_filter filter_empty_conv)
  then show ?thesis
    unfolding calculate_person_nights_def by (rule person_nights_loop_known)
qed

text \<open>
  Claim C10. \<^verbatim>\<open>calculate_person_nights\<close> looks each stay's member up in the family
  map directly: if some stay names an absent member it fails with the
  \<^verbatim>\<open>KeyError\<close> of the first such member; if member validation has passed (no
  unknown member was found) it returns a mapping.
\<close>

theorem person_nights_lookup:
  "(find_unknown_members mtf stays \<noteq> [] \<longrightarrow>
      calculate_person_nights stays mtf =
        Inl (KeyError (hd (find_unknown_members mtf stays))) \<and>
      hd (find_unknown_members mtf stays) \<notin> fst ` set mtf) \<and>
   (find_unknown_members mtf stays = [] \<longrightarrow>
      (\<exists>fn. calculate_person_nights stays mtf = Inr fn))"
proof (intro conjI impI)
  assume ne: "find_unknown_members mtf stays \<noteq> []"
  then show "calculate_person_nights stays mtf =
        Inl (KeyError (hd (find_unknown_members mtf stays)))"
    unfolding find_unknown_members_filter calculate_person_nights_def
    by (rule person_nights_loop_unknown)
  from ne have "hd (find_unknown_members mtf stays) \<in> set (find_unknown_members mtf stays)"
    by simp
  then show "hd (find_unknown_members mtf stays) \<notin> fst ` set mtf"
    unfolding find_unknown_members_filter by simp
next
  assume "find_unknown_members mtf stays = []"
  then show "\<exists>fn. calculate_person_nights stays mtf = Inr fn"
    by (rule calculate_person_nights_known)
qed

theorem person_nights_lookup_witness:
  "find_unknown_members [(''John'', ''Adams'')]
      [\<lparr>member_name = ''John'', nights = 5\<rparr>, \<lparr>member_name = ''Zack'', nights = 2\<rparr>] \<noteq> [] \<and>
   calculate_person_nights
      [\<lparr>member_name = ''John'', nights = 5\<rparr>, \<lparr>member_name = ''Zack'', nights = 2\<rparr>]
      [(''John'', ''Adams'')] = Inl (KeyError ''Zack'') \<and>
   find_unknown_members [(''John'', ''Adams'')]
      [\<lparr>member_name = ''John'', nights = 5\<rparr>, \<lparr>member_name = ''John'', nights = 2\<rparr>] = [] \<and>
   (\<exists>fn. calculate_person_nights
      [\<lparr>member_name = ''John'', nights = 5\<rparr>, \<lparr>member_name = ''John'', nights = 2\<rparr>]
      [(''John'', ''Adams'')] = Inr fn)"
  using person_nights_lookup[of "[(''John'', ''Adams'')]"
      "[\<lparr>member_name = ''John'', nights = 5\<rparr>, \<lparr>member_name = ''Zack'', nights = 2\<rparr>]"]
    person_nights_lookup[of "[(''John'', ''Adams'')]"
      "[\<lparr>member_name = ''John'', nights = 5\<rparr>, \<lparr>member_name = ''John'', nights = 2\<rparr>]"]
  by (simp add: find_unknown_members_def)

lemma calculate_unknown_members:
  "find_unknown_members mtf stays \<noteq> [] \<Longrightarrow>
   calculate mtf stays expenses = Some (UnknownMembers (find_unknown_members mtf stays))"
  by (simp add: calculate_def Let_def)

lemma calculate_unknown_families:
  "find_unknown_members mtf stays = [] \<Longrightarrow> find_unknown_families mtf expenses \<noteq> [] \<Longrightarrow>
   calculate mtf stays expenses =
     Some (UnknownFamilies (set (find_unknown_families mtf expenses)))"
  by (simp add: calculate_def Let_def)


lemma calculate_clicked_run:
  "families_data \<noteq> [] \<Longrightarrow> stays_data \<noteq> [] \<Longrightarrow> expenses_data \<noteq> [] \<Longrightarrow>
   calculate_clicked families_data stays_data expenses_data =
     calculate (parse_families families_data) (parse_stays stays_data)
       (parse_expenses expenses_data)"
  by (simp add: calculate_clicked_def)

text \<open>Small numbers and records read from text.\<close>

lemma py_float_10: "py_float ''10'' = Some (Fin 10)"
  by (simp add: py_float_def py_strip_def py_isspace_def py_absfloat_def py_number_def
      digitpart_def is_digit_def digit_val_def to_lower_def Let_def round_double_numeral
      less_eq_char_def)

lemma py_int_3: "py_int ''3'' = Some 3"
  by (simp add: py_int_def py_strip_def py_isspace_def int_digits_def digitpart_def
      is_digit_def digit_val_def less_eq_char_def)

lemma parse_stays_Zack: "parse_stays ''Zack,3'' = [\<lparr>member_name = ''Zack'', nights = 3\<rparr>]"
  by (simp add: parse_stays_def parse_stays_line_def py_strip_def py_isspace_def Let_def
      py_int_3)

lemma parse_expenses_Foo:
  "parse_expenses ''Foo,rent,10'' =
     [\<lparr>paid_by_family = ''Foo'', expense_type = ''rent'', amount = Fin 10, description = []\<rparr>]"
  by (simp add: parse_expenses_def parse_expenses_line_def py_strip_def py_isspace_def Let_def
      py_float_10)

lemma parse_families_Adams: "parse_families ''Adams:John'' = [(''John'', ''Adams'')]"
  by (simp add: parse_families_def parse_families_line_def add_member_def py_strip_def
      py_isspace_def py_split1_def Let_def)

lemma parse_families_empty: "parse_families [] = []"
  by (simp add: parse_families_def parse_families_line_def py_strip_def Let_def)

text \<open>
  Claim C6, as stated: for every input containing both a stay record naming a member
  absent from the family map and an expense record naming a family absent from it, the
  cycle fails with the unknown members. The whole block is guarded by
  \<^verbatim>\<open>if families_data and stays_data and expenses_data\<close>: with an empty families
  text area the stay of Zack and the expense of Foo below name an absent member and an
  absent family, yet nothing is validated and nothing is reported.
\<close>

theorem members_validated_first_counterexample:
  "parse_families [] = [] \<and>
   parse_stays ''Zack,3'' = [\<lparr>member_name = ''Zack'', nights = 3\<rparr>] \<and>
   parse_expenses ''Foo,rent,10'' =
     [\<lparr>paid_by_family = ''Foo'', expense_type = ''rent'', amount = Fin 10, description = []\<rparr>] \<and>
   calculate_clicked [] ''Zack,3'' ''Foo,rent,10'' = Some NotRun"
  by (simp add: parse_families_empty parse_stays_Zack parse_expenses_Foo calculate_clicked_def)

text \<open>
  Claim C6, amended: for every input whose three text areas are all non-empty and
  which contains both a stay record naming a member absent from the family map and an
  expense record naming a family absent from it, the cycle ends with the unknown
  members, and only them: the family check is never reached.
\<close>

theorem members_validated_first:
  assumes "families_data \<noteq> []" "stays_data \<noteq> []" "expenses_data \<noteq> []"
    and "\<exists>s \<in> set (parse_stays stays_data).
           member_name s \<notin> fst ` set (parse_families families_data)"
    and "\<exists>e \<in> set (parse_expenses expenses_data).
           paid_by_family e \<notin> snd ` set (parse_families families_data)"
  shows "calculate_clicked families_data stays_data expenses_data =
           Some (UnknownMembers
             (filter (\<lambda>m. m \<notin> fst ` set (parse_families families_data))
                (map member_name (parse_stays stays_data)))) \<and>
         filter (\<lambda>m. m \<notin> fst ` set (parse_families families_data))
           (map member_name (parse_stays stays_data)) \<noteq> []"
proof -
  have ne: "filter (\<lambda>m. m \<notin> fst ` set (parse_families families_data))
           (map member_name (parse_stays stays_data)) \<noteq> []"
    using assms(4) by (auto simp: filter_empty_conv)
  then have "find_unknown_members (parse_families families_data) (parse_stays stays_data) \<noteq> []"
    by (simp add: find_unknown_members_filter)
  from calculate_unknown_members[OF this, of "parse_expenses expenses_data"] ne
  show ?thesis
    by (simp add: calculate_clicked_run[OF assms(1-3)] find_unknown_members_filter)
qed

theorem members_validated_first_witness:
  "''Adams:John'' \<noteq> [] \<and> ''Zack,3'' \<noteq> [] \<and> ''Foo,rent,10'' \<noteq> [] \<and>
   parse_families ''Adams:John'' = [(''John'', ''Adams'')] \<and>
   parse_stays ''Zack,3'' = [\<lparr>member_name = ''Zack'', nights = 3\<rparr>] \<and>
   parse_expenses ''Foo,rent,10'' =
     [\<lparr>paid_by_family = ''Foo'', expense_type = ''rent'', amount = Fin 10, description = []\<rparr>] \<and>
   calculate_clicked ''Adams:John'' ''Zack,3'' ''Foo,rent,10'' = Some (UnknownMembers [''Zack''])"
proof -
  have n: "''Adams:John'' \<noteq> []" "''Zack,3'' \<noteq> []" "''Foo,rent,10'' \<noteq> []" by simp_all
  have a: "\<exists>s \<in> set (parse_stays ''Zack,3'').
           member_name s \<notin> fst ` set (parse_families ''Adams:John'')"
    by (simp add: parse_stays_Zack parse_families_Adams)
  have b: "\<exists>e \<in> set (parse_expenses ''Foo,rent,10'').
           paid_by_family e \<notin> snd ` set (parse_families ''Adams:John'')"
    by (simp add: parse_expenses_Foo parse_families_Adams)
  from members_validated_first[OF n a b]
  have "calculate_clicked ''Adams:John'' ''Zack,3'' ''Foo,rent,10'' = Some (UnknownMembers [''Zack''])"
    by (simp add: parse_stays_Zack parse_families_Adams)
  with n parse_families_Adams parse_stays_Zack parse_expenses_Foo show ?thesis
    by (intro conjI)
qed

text \<open>
  Claim C7, as stated: the names carried by a validation failure are a deduplicated
  set, the unknown members sorted for display. The unknown members are collected in a
  list, one entry per offending stay record, and shown in that order: a member named
  by two stays is carried twice, and the list is not sorted.
\<close>

theorem unknown_names_counterexample:
  "calculate [(''John'', ''Adams'')]
     [\<lparr>member_name = ''Zed'', nights = 1\<rparr>, \<lparr>member_name = ''Amy'', nights = 2\<rparr>,
      \<lparr>member_name = ''Zed'', nights = 3\<rparr>, \<lparr>member_name = ''John'', nights = 4\<rparr>] [] =
     Some (UnknownMembers [''Zed'', ''Amy'', ''Zed'']) \<and>
   \<not> distinct [''Zed'', ''Amy'', ''Zed''] \<and> \<not> sorted [''Zed'', ''Amy'', ''Zed'']"
  by code_simp

lemma calculate_valid_outcome:
  assumes "find_unknown_members mtf stays = []" "find_unknown_families mtf expenses = []"
  shows "calculate mtf stays expenses \<noteq> Some (UnknownMembers names)"
    and "calculate mtf stays expenses \<noteq> Some (UnknownFamilies fams)"
  using assms by (simp_all add: calculate_def Let_def split: sum.split option.split)

text \<open>
  Claim C7, amended: a failure for unknown members carries the member names of the
  stay records that are absent from the family map, in the order of the stay records;
  a failure for unknown families carries the set of the family names of the expense
  records that are absent from the family map.
\<close>

theorem unknown_names_carried:
  "(calculate mtf stays expenses = Some (UnknownMembers names) \<longrightarrow>
      names = filter (\<lambda>m. m \<notin> fst ` set mtf) (map member_name stays)) \<and>
   (calculate mtf stays expenses = Some (UnknownFamilies fams) \<longrightarrow>
      fams = {f \<in> paid_by_family ` set expenses. f \<notin> snd ` set mtf})"
proof (intro conjI impI)
  assume a: "calculate mtf stays expenses = Some (UnknownMembers names)"
  show "names = filter (\<lambda>m. m \<notin> fst ` set mtf) (map member_name stays)"
  proof (cases "find_unknown_members mtf stays = []")
    case False
    from calculate_unknown_members[OF False, of expenses] a
    show ?thesis by (simp add: find_unknown_members_filter)
  next
    case True
    show ?thesis
    proof (cases "find_unknown_families mtf expenses = []")
      case False
      from calculate_unknown_families[OF True False] a show ?thesis by simp
    next
      case empty: True
      from calculate_valid_outcome(1)[OF True empty, of names] a show ?thesis by simp
    qed
  qed
next
  assume a: "calculate mtf stays expenses = Some (UnknownFamilies fams)"
  show "fams = {f \<in> paid_by_family ` set expenses. f \<notin> snd ` set mtf}"
  proof (cases "find_unknown_members mtf stays = []")
    case False
    from calculate_unknown_members[OF False, of expenses] a
    show ?thesis by simp
  next
    case True
    show ?thesis
    proof (cases "find_unknown_families mtf expenses = []")
      case False
      from calculate_unknown_families[OF True False] a
      show ?thesis by (auto simp: find_unknown_families_filter)
    next
      case empty: True
      from calculate_valid_outcome(2)[OF True empty, of fams] a show ?thesis by simp
    qed
  qed
qed

theorem unknown_names_carried_witness:
  "calculate [(''John'', ''Adams'')]
     [\<lparr>member_name = ''Zed'', nights = 1\<rparr>, \<lparr>member_name = ''Amy'', nights = 2\<rparr>,
      \<lparr>member_name = ''Zed'', nights = 3\<rparr>] [] = Some (UnknownMembers [''Zed'', ''Amy'', ''Zed'']) \<and>
   [''Zed'', ''Amy'', ''Zed''] =
     filter (\<lambda>m. m \<notin> fst ` set [(''John'', ''Adams'')])
       (map member_name [\<lparr>member_name = ''Zed'', nights = 1\<rparr>, \<lparr>member_name = ''Amy'', nights = 2\<rparr>,
      \<lparr>member_name = ''Zed'', nights = 3\<rparr>]) \<and>
   calculate [(''John'', ''Adams'')] [\<lparr>member_name = ''John'', nights = 1\<rparr>]
     [\<lparr>paid_by_family = ''B'', expense_type = ''rent'', amount = Fin 1, description = []\<rparr>,
      \<lparr>paid_by_family = ''C'', expense_type = ''rent'', amount = Fin 1, description = []\<rparr>,
      \<lparr>paid_by_family = ''B'', expense_type = ''food'', amount = Fin 1, description = []\<rparr>] =
     Some (UnknownFamilies {''B'', ''C''}) \<and>
   {''B'', ''C''} = {f \<in> paid_by_family ` set
     [\<lparr>paid_by_family = ''B'', expense_type = ''rent'', amount = Fin 1, description = []\<rparr>,
      \<lparr>paid_by_family = ''C'', expense_type = ''rent'', amount = Fin 1, description = []\<rparr>,
      \<lparr>paid_by_family = ''B'', expense_type = ''food'', amount = Fin 1, description = []\<rparr>].
        f \<notin> snd ` set [(''John'', ''Adams'')]}"
proof -
  have a: "calculate [(''John'', ''Adams'')]
     [\<lparr>member_name = ''Zed'', nights = 1\<rparr>, \<lparr>member_name = ''Amy'', nights = 2\<rparr>,
      \<lparr>member_name = ''Zed'', nights = 3\<rparr>] [] = Some (UnknownMembers [''Zed'', ''Amy'', ''Zed''])"
    by code_simp
  have b: "calculate [(''John'', ''Adams'')] [\<lparr>member_name = ''John'', nights = 1\<rparr>]
     [\<lparr>paid_by_family = ''B'', expense_type = ''rent'', amount = Fin 1, description = []\<rparr>,
      \<lparr>paid_by_family = ''C'', expense_type = ''rent'', amount = Fin 1, description = []\<rparr>,
      \<lparr>paid_by_family = ''B'', expense_type = ''food'', amount = Fin 1, description = []\<rparr>] =
     Some (UnknownFamilies {''B'', ''C''})"
    by code_simp
  note c = unknown_names_carried[THEN conjunct1, THEN mp, OF a]
  note d = unknown_names_carried[THEN conjunct2, THEN mp, OF b]
  from a c b d show ?thesis by (intro conjI)
qed

section \<open>Zero person-nights\<close>

lemma dict_set_sum:
  "sum_list (map snd (dict_set k (dict_get d k 0 + n) d)) = sum_list (map snd d) + (n::int)"
  by (induction d) (auto simp: dict_get_def)

lemma person_nights_loop_sum:
  "person_nights_loop stays mtf acc = Inr fn \<Longrightarrow>
   sum_list (map snd fn) = sum_list (map snd acc) + sum_list (map nights stays)"
proof (induction stays arbitrary: acc)
  case Nil
  then show ?case by simp
next
  case (Cons s stays)
  then show ?case
    by (auto simp: Let_def dict_set_sum split: option.splits)
qed

lemma calculate_person_nights_sum:
  "calculate_person_nights stays mtf = Inr fn \<Longrightarrow>
   sum_list (map snd fn) = sum_list (map nights stays)"
  using person_nights_loop_sum[of stays mtf "[]" fn] by (simp add: calculate_person_nights_def)

text \<open>
  With an empty text area for the stays the block is not entered: nothing is
  computed and nothing is reported.
\<close>

lemma empty_stays_area_not_run: "calculate_clicked families_data [] expenses_data = Some NotRun"
  by (simp add: calculate_clicked_def)

text \<open>
  Claim C3, as stated: with expenses present and no person-nights the cycle fails with
  an error of its own kind, checked before the division. The code has no such check:
  the division \<^verbatim>\<open>total_expenses / total_nights\<close> raises, and the failure is the one
  of the general handler \<^verbatim>\<open>except Exception\<close>.
\<close>


lemma float_of_int_small: "\<bar>n\<bar> < 2 ^ 53 \<Longrightarrow> float_of_int n = Inr (Fin (of_int n))"
  by (simp add: float_of_int_def round_double_int)

lemma float_of_int_zero: "float_of_int 0 = Inr (Fin 0)"
  using float_of_int_small[of 0] by simp

lemma cost_per_night_of_zero: "cost_per_night_of expenses 0 = Inl ZeroDivisionError"
  by (simp add: cost_per_night_of_def fdiv_int_def float_of_int_zero)

theorem zero_nights_generic_error_counterexample:
  "calculate [(''John'', ''Adams'')] []
     [\<lparr>paid_by_family = ''Adams'', expense_type = ''rent'', amount = Fin 100, description = []\<rparr>] =
   Some (ProcessingError ZeroDivisionError)"
  by (simp add: calculate_def find_unknown_members_def find_unknown_families_def
      calculate_person_nights_def cost_per_night_of_zero)

text \<open>
  Claim C3, amended: if validation passes and the total of person-nights is 0, the
  division raises \<^verbatim>\<open>ZeroDivisionError\<close>, which the general handler reports; no cost
  per night, balance or settlement is produced.
\<close>

theorem zero_nights_generic_error:
  assumes "find_unknown_members mtf stays = []" "find_unknown_families mtf expenses = []"
    and "sum_list (map nights stays) = 0"
  shows "calculate mtf stays expenses = Some (ProcessingError ZeroDivisionError)"
proof -
  obtain fn where fn: "calculate_person_nights stays mtf = Inr fn"
    using calculate_person_nights_known[OF assms(1)] by blast
  have "sum_list (map snd fn) = 0"
    using calculate_person_nights_sum[OF fn] assms(3) by simp
  then show ?thesis
    using assms(1,2) fn by (simp add: calculate_def Let_def cost_per_night_of_zero)
qed

theorem zero_nights_generic_error_witness:
  "find_unknown_members [(''John'', ''Adams'')] [\<lparr>member_name = ''John'', nights = 0\<rparr>] = [] \<and>
   find_unknown_families [(''John'', ''Adams'')]
     [\<lparr>paid_by_family = ''Adams'', expense_type = ''rent'', amount = Fin 100, description = []\<rparr>] = [] \<and>
   sum_list (map nights [\<lparr>member_name = ''John'', nights = 0\<rparr>]) = 0 \<and>
   calculate [(''John'', ''Adams'')] [\<lparr>member_name = ''John'', nights = 0\<rparr>]
     [\<lparr>paid_by_family = ''Adams'', expense_type = ''rent'', amount = Fin 100, description = []\<rparr>] =
   Some (ProcessingError ZeroDivisionError)"
proof -
  have a: "find_unknown_members [(''John'', ''Adams'')] [\<lparr>member_name = ''John'', nights = 0\<rparr>] = []"
    by (simp add: find_unknown_members_def)
  have b: "find_unknown_families [(''John'', ''Adams'')]
     [\<lparr>paid_by_family = ''Adams'', expense_type = ''rent'', amount = Fin 100, description = []\<rparr>] = []"
    by (simp add: find_unknown_families_def)
  have c: "sum_list (map nights [\<lparr>member_name = ''John'', nights = 0\<rparr>]) = 0" by simp
  from zero_nights_generic_error[OF a b c] a b c show ?thesis by (intro conjI)
qed

section \<open>What the parsers let through\<close>

subsection \<open>text\<close>

lemma set_py_strip: "set (py_strip s) \<subseteq> set s"
proof -
  have "set (dropWhile P xs) \<subseteq> set xs" for P and xs :: string
    by (meson set_dropWhileD subsetI)
  then show ?thesis
    unfolding py_strip_def by (metis (no_types) set_rev subset_trans)
qed

lemma set_py_split: "p \<in> set (py_split c s) \<Longrightarrow> set p \<subseteq> set s"
proof (induction s arbitrary: p)
  case Nil
  then show ?case by simp
next
  case (Cons x xs)
  show ?case
  proof (cases "x = c")
    case True
    with Cons show ?thesis by auto
  next
    case False
    show ?thesis
    proof (cases "py_split c xs")
      case Nil
      with False Cons.prems show ?thesis by simp
    next
      case (Cons q qs)
      with False Cons.prems have "p = x # q \<or> p \<in> set qs" by simp
      moreover have "set q \<subseteq> set xs" "\<And>r. r \<in> set qs \<Longrightarrow> set r \<subseteq> set xs"
        using Cons.IH Cons by simp_all
      ultimately show ?thesis by auto
    qed
  qed
qed

lemma set_py_split1:
  "set (fst (py_split1 c s)) \<subseteq> set s" "set (snd (py_split1 c s)) \<subseteq> set s"
proof -
  show "set (fst (py_split1 c s)) \<subseteq> set s"
    by (auto simp: py_split1_def dest: set_takeWhileD)
  have "set (drop 1 (dropWhile (\<lambda>x. x \<noteq> c) s)) \<subseteq> set (dropWhile (\<lambda>x. x \<noteq> c) s)"
    by (rule set_drop_subset)
  also have "\<dots> \<subseteq> set s" by (meson set_dropWhileD subsetI)
  finally show "set (snd (py_split1 c s)) \<subseteq> set s" by (simp add: py_split1_def)
qed

subsection \<open>numbers\<close>

lemma py_int_nonneg:
  assumes "py_int s = Some n" "CHR ''-'' \<notin> set s"
  shows "0 \<le> n"
proof -
  from assms(1) obtain c cs where st: "py_strip s = c # cs"
    by (cases "py_strip s") (auto simp: py_int_def)
  have "c \<in> set s" using set_py_strip[of s] st by auto
  with assms(2) have "c \<noteq> CHR ''-''" by auto
  with assms(1) st show ?thesis
    by (auto simp: py_int_def split: if_splits)
qed

lemma py_number_nonneg: "py_number s = Some q \<Longrightarrow> 0 \<le> q"
  by (auto simp: py_number_def Let_def split: if_splits prod.splits option.splits)

lemma py_exponent_pos: "py_exponent s = Some p \<Longrightarrow> 0 < p"
  by (auto simp: py_exponent_def split: list.splits if_splits)

lemma py_absfloat_nonneg: "py_absfloat s = Some x \<Longrightarrow> x = NaN \<or> fge0 x"
proof -
  assume a: "py_absfloat s = Some x"
  show ?thesis
  proof (cases "map to_lower s = ''inf'' \<or> map to_lower s = ''infinity''")
    case True
    with a show ?thesis by (auto simp: py_absfloat_def Let_def)
  next
    case notinf: False
    show ?thesis
    proof (cases "map to_lower s = ''nan''")
      case True
      with a notinf show ?thesis by (auto simp: py_absfloat_def Let_def)
    next
      case notnan: False
      show ?thesis
      proof (cases "CHR ''e'' \<in> set (map to_lower s)")
        case True
        obtain m e where me: "py_split1 (CHR ''e'') (map to_lower s) = (m, e)"
          by (cases "py_split1 (CHR ''e'') (map to_lower s)")
        from a notinf notnan True me obtain q p where
          "py_number m = Some q" "py_exponent e = Some p" "x = round_double (q * p)"
          by (auto simp: py_absfloat_def Let_def split: option.splits)
        then show ?thesis
          using py_number_nonneg[of m q] py_exponent_pos[of e p]
          by (simp add: round_double_nonneg)
      next
        case False
        with a notinf notnan obtain q where
          "py_number (map to_lower s) = Some q" "x = round_double q"
          by (auto simp: py_absfloat_def Let_def)
        then show ?thesis using py_number_nonneg by (simp add: round_double_nonneg)
      qed
    qed
  qed
qed

lemma py_float_nonneg:
  assumes "py_float s = Some x" "CHR ''-'' \<notin> set s"
  shows "x = NaN \<or> fge0 x"
proof -
  from assms(1) obtain c cs where st: "py_strip s = c # cs"
    by (cases "py_strip s") (auto simp: py_float_def)
  have "c \<in> set s" using set_py_strip[of s] st by auto
  with assms(2) have "c \<noteq> CHR ''-''" by auto
  with assms(1) st have "py_absfloat cs = Some x \<or> py_absfloat (c # cs) = Some x"
    by (auto simp: py_float_def split: if_splits)
  then show ?thesis using py_absfloat_nonneg by blast
qed

lemma field_chars:
  assumes "i < length (py_split c (py_strip line))"
  shows "set (py_strip (py_split c (py_strip line) ! i)) \<subseteq> set line"
proof -
  have "py_split c (py_strip line) ! i \<in> set (py_split c (py_strip line))"
    using assms by simp
  then have "set (py_split c (py_strip line) ! i) \<subseteq> set (py_strip line)"
    by (rule set_py_split)
  with set_py_strip[of "py_split c (py_strip line) ! i"] set_py_strip[of line]
  show ?thesis by blast
qed

lemma parse_stays_line_nonneg:
  assumes "\<forall>s \<in> set stays. 0 \<le> nights s" "CHR ''-'' \<notin> set line"
  shows "\<forall>s \<in> set (parse_stays_line stays line). 0 \<le> nights s"
proof (cases "2 \<le> length (py_split (CHR '','') (py_strip line))")
  case False
  with assms(1) show ?thesis by (simp add: parse_stays_line_def Let_def)
next
  case True
  let ?field = "py_strip (py_split (CHR '','') (py_strip line) ! 1)"
  have "set ?field \<subseteq> set line" using True by (intro field_chars) simp
  with assms(2) have nominus: "CHR ''-'' \<notin> set ?field" by blast
  show ?thesis
  proof (cases "py_int ?field")
    case None
    with assms(1) show ?thesis by (simp add: parse_stays_line_def Let_def)
  next
    case (Some n)
    from Some nominus have "0 \<le> n" by (rule py_int_nonneg)
    with Some assms(1) True show ?thesis by (simp add: parse_stays_line_def Let_def)
  qed
qed

lemma parse_expenses_line_nonneg:
  assumes "\<forall>e \<in> set expenses. amount e = NaN \<or> fge0 (amount e)" "CHR ''-'' \<notin> set line"
  shows "\<forall>e \<in> set (parse_expenses_line expenses line). amount e = NaN \<or> fge0 (amount e)"
proof (cases "3 \<le> length (py_split (CHR '','') (py_strip line))")
  case False
  with assms(1) show ?thesis by (simp add: parse_expenses_line_def Let_def)
next
  case True
  let ?field = "py_strip (py_split (CHR '','') (py_strip line) ! 2)"
  have "set ?field \<subseteq> set line" using True by (intro field_chars) simp
  with assms(2) have nominus: "CHR ''-'' \<notin> set ?field" by blast
  show ?thesis
  proof (cases "py_float ?field")
    case None
    with assms(1) show ?thesis by (simp add: parse_expenses_line_def Let_def)
  next
    case (Some a)
    from Some nominus have "a = NaN \<or> fge0 a" by (rule py_float_nonneg)
    with Some assms(1) True show ?thesis by (simp add: parse_expenses_line_def Let_def)
  qed
qed

lemma foldl_lines_invariant:
  assumes "\<And>acc line. P acc \<Longrightarrow> line \<in> set ls \<Longrightarrow> P (f acc line)" "P acc"
  shows "P (foldl f acc ls)"
  using assms by (induction ls arbitrary: acc) auto

lemma line_chars: "line \<in> set (py_split (CHR 0x0A) (py_strip text)) \<Longrightarrow> set line \<subseteq> set text"
  using set_py_split[of line "CHR 0x0A" "py_strip text"] set_py_strip[of "text"] by blast

text \<open>
  Claim C9, as stated: every stay record of \<^verbatim>\<open>parse_stays\<close> has nights \<open>\<ge> 0\<close> and
  every expense record of \<^verbatim>\<open>parse_expenses\<close> has amount \<open>\<ge> 0\<close>. \<^verbatim>\<open>int\<close> and
  \<^verbatim>\<open>float\<close> accept a minus sign, and the parsers keep what they return.
\<close>


lemma py_int_7: "py_int ''7'' = Some 7"
  by (simp add: py_int_def py_strip_def py_isspace_def int_digits_def digitpart_def
      is_digit_def digit_val_def less_eq_char_def)

lemma py_int_minus5: "py_int ''-5'' = Some (- 5)"
  by (simp add: py_int_def py_strip_def py_isspace_def int_digits_def digitpart_def
      is_digit_def digit_val_def less_eq_char_def)

lemma py_float_7: "py_float ''7'' = Some (Fin 7)"
  by (simp add: py_float_def py_strip_def py_isspace_def py_absfloat_def py_number_def
      digitpart_def is_digit_def digit_val_def to_lower_def Let_def round_double_numeral
      less_eq_char_def)

lemma py_float_minus5: "py_float ''-5'' = Some (Fin (- 5))"
  by (simp add: py_float_def py_strip_def py_isspace_def py_absfloat_def py_number_def
      digitpart_def is_digit_def digit_val_def to_lower_def Let_def round_double_numeral
      less_eq_char_def)

theorem parsed_values_counterexample:
  "map nights (parse_stays ''John,-5'') = [- 5] \<and> \<not> 0 \<le> (- 5 :: int) \<and>
   map amount (parse_expenses ''Adams,rent,-5,refund'') = [Fin (- 5)] \<and> \<not> fge0 (Fin (- 5))"
  by (simp add: parse_stays_def parse_stays_line_def parse_expenses_def parse_expenses_line_def
      py_strip_def py_isspace_def Let_def py_int_minus5 py_float_minus5)

text \<open>
  Claim C9, amended: for every input text without a minus sign, every stay record of
  \<^verbatim>\<open>parse_stays\<close> has nights \<open>\<ge> 0\<close>, and every expense record of \<^verbatim>\<open>parse_expenses\<close>
  has an amount that is \<open>\<ge> 0\<close> or \<^verbatim>\<open>nan\<close>.
\<close>

theorem parsed_values_not_negative_without_minus:
  assumes "CHR ''-'' \<notin> set text"
  shows "(\<forall>s \<in> set (parse_stays text). 0 \<le> nights s) \<and>
         (\<forall>e \<in> set (parse_expenses text). amount e = NaN \<or> fge0 (amount e))"
proof
  show "\<forall>s \<in> set (parse_stays text). 0 \<le> nights s"
    unfolding parse_stays_def
  proof (rule foldl_lines_invariant[where P = "\<lambda>acc. \<forall>s \<in> set acc. 0 \<le> nights s"])
    fix acc :: "stay list" and line
    assume "\<forall>s \<in> set acc. 0 \<le> nights s" "line \<in> set (py_split (CHR 0x0A) (py_strip text))"
    then show "\<forall>s \<in> set (parse_stays_line acc line). 0 \<le> nights s"
      using line_chars[of line "text"] assms by (intro parse_stays_line_nonneg) auto
  qed simp
  show "\<forall>e \<in> set (parse_expenses text). amount e = NaN \<or> fge0 (amount e)"
    unfolding parse_expenses_def
  proof (rule foldl_lines_invariant[where P = "\<lambda>acc. \<forall>e \<in> set acc. amount e = NaN \<or> fge0 (amount e)"])
    fix acc :: "expense list" and line
    assume "\<forall>e \<in> set acc. amount e = NaN \<or> fge0 (amount e)"
      "line \<in> set (py_split (CHR 0x0A) (py_strip text))"
    then show "\<forall>e \<in> set (parse_expenses_line acc line). amount e = NaN \<or> fge0 (amount e)"
      using line_chars[of line "text"] assms by (intro parse_expenses_line_nonneg) auto
  qed simp
qed

theorem parsed_values_not_negative_without_minus_witness:
  "CHR ''-'' \<notin> set ''Adams,rent,7,House rental'' \<and>
   parse_stays ''John,7'' = [\<lparr>member_name = ''John'', nights = 7\<rparr>] \<and>
   parse_expenses ''Adams,rent,7,House rental'' =
     [\<lparr>paid_by_family = ''Adams'', expense_type = ''rent'', amount = Fin 7,
       description = ''House rental''\<rparr>] \<and>
   list_all (\<lambda>s. 0 \<le> nights s) (parse_stays ''Adams,rent,7,House rental'') \<and>
   list_all (\<lambda>e. amount e = NaN \<or> fge0 (amount e))
     (parse_expenses ''Adams,rent,7,House rental'')"
proof -
  have a: "CHR ''-'' \<notin> set ''Adams,rent,7,House rental''" by simp
  have b: "parse_stays ''John,7'' = [\<lparr>member_name = ''John'', nights = 7\<rparr>]"
    by (simp add: parse_stays_def parse_stays_line_def py_strip_def py_isspace_def Let_def
        py_int_7)
  have c: "parse_expenses ''Adams,rent,7,House rental'' =
     [\<lparr>paid_by_family = ''Adams'', expense_type = ''rent'', amount = Fin 7,
       description = ''House rental''\<rparr>]"
    by (simp add: parse_expenses_def parse_expenses_line_def py_strip_def py_isspace_def Let_def
        py_float_7)
  note d = parsed_values_not_negative_without_minus[OF a]
  from a b c d[THEN conjunct1, folded list_all_iff] d[THEN conjunct2, folded list_all_iff]
  show ?thesis by (intro conjI)
qed


section \<open>A cycle that never returns\<close>


lemma diverging_balances: "calculate_settlements [(''X'', NInf), (''Y'', PInf)] = None"
  by (simp add: calculate_settlements_def tol_def fgt_def py_sort_def settle_loop_inf)

lemma diverging_cycle:
  "calculate [(''a'', ''X''), (''b'', ''Y'')]
     [\<lparr>member_name = ''a'', nights = 3\<rparr>, \<lparr>member_name = ''b'', nights = - 1\<rparr>]
     [\<lparr>paid_by_family = ''Y'', expense_type = ''rent'', amount = PInf, description = []\<rparr>] = None"
proof -
  have 1: "find_unknown_members [(''a'', ''X''), (''b'', ''Y'')]
     [\<lparr>member_name = ''a'', nights = 3\<rparr>, \<lparr>member_name = ''b'', nights = - 1\<rparr>] = []"
    by (simp add: find_unknown_members_def)
  have 2: "find_unknown_families [(''a'', ''X''), (''b'', ''Y'')]
     [\<lparr>paid_by_family = ''Y'', expense_type = ''rent'', amount = PInf, description = []\<rparr>] = []"
    by (simp add: find_unknown_families_def)
  have 3: "calculate_person_nights
     [\<lparr>member_name = ''a'', nights = 3\<rparr>, \<lparr>member_name = ''b'', nights = - 1\<rparr>]
     [(''a'', ''X''), (''b'', ''Y'')] = Inr [(''X'', 3), (''Y'', - 1)]"
    by (simp add: calculate_person_nights_def dict_get_def)
  have 4: "calculate_family_payments
     [\<lparr>paid_by_family = ''Y'', expense_type = ''rent'', amount = PInf, description = []\<rparr>] =
     [(''Y'', PInf)]"
    by (simp add: calculate_family_payments_def add_payment_def dict_get_def)
  have 5: "cost_per_night_of
     [\<lparr>paid_by_family = ''Y'', expense_type = ''rent'', amount = PInf, description = []\<rparr>] 2 =
     Inr PInf"
    using float_of_int_small[of 2]
    by (simp add: cost_per_night_of_def py_sum_def fdiv_int_def)
  have 6: "compute_balances [(''X'', 3), (''Y'', - 1)] [(''Y'', PInf)] PInf [''X'', ''Y''] =
     Inr [(''X'', NInf), (''Y'', PInf)]"
    using float_of_int_small[of 3] float_of_int_small[of "- 1"]
    by (simp add: fmul_int_def dict_get_def fsub_def)
  show ?thesis
    by (simp add: calculate_def Let_def 1 2 3 4 5 6 diverging_balances
        del: compute_balances.simps)
qed

lemma py_int_minus1: "py_int ''-1'' = Some (- 1)"
  by (simp add: py_int_def py_strip_def py_isspace_def int_digits_def digitpart_def
      is_digit_def digit_val_def less_eq_char_def)

lemma py_float_inf: "py_float ''inf'' = Some PInf"
  by (simp add: py_float_def py_strip_def py_isspace_def py_absfloat_def to_lower_def
      less_eq_char_def)

lemma diverging_text:
  "parse_families (''X:a'' @ [CHR 0x0A] @ ''Y:b'') = [(''a'', ''X''), (''b'', ''Y'')]"
  "parse_stays (''a,3'' @ [CHR 0x0A] @ ''b,-1'') =
     [\<lparr>member_name = ''a'', nights = 3\<rparr>, \<lparr>member_name = ''b'', nights = - 1\<rparr>]"
  "parse_expenses ''Y,rent,inf'' =
     [\<lparr>paid_by_family = ''Y'', expense_type = ''rent'', amount = PInf, description = []\<rparr>]"
proof -
  show "parse_families (''X:a'' @ [CHR 0x0A] @ ''Y:b'') = [(''a'', ''X''), (''b'', ''Y'')]"
    by (simp add: parse_families_def parse_families_line_def add_member_def py_strip_def
        py_isspace_def py_split1_def Let_def)
  show "parse_stays (''a,3'' @ [CHR 0x0A] @ ''b,-1'') =
     [\<lparr>member_name = ''a'', nights = 3\<rparr>, \<lparr>member_name = ''b'', nights = - 1\<rparr>]"
    by (simp add: parse_stays_def parse_stays_line_def py_strip_def py_isspace_def Let_def
        py_int_3 py_int_minus1)
  show "parse_expenses ''Y,rent,inf'' =
     [\<lparr>paid_by_family = ''Y'', expense_type = ''rent'', amount = PInf, description = []\<rparr>]"
    by (simp add: parse_expenses_def parse_expenses_line_def py_strip_def py_isspace_def Let_def
        py_float_inf)
qed

text \<open>
  Claim C8 says that the settlement loop terminates for every balance mapping. On the
  mapping \<^verbatim>\<open>{"X": -inf, "Y": inf}\<close> it does not: the first round subtracts
  \<^verbatim>\<open>inf\<close> from both heads, which leaves \<^verbatim>\<open>nan\<close> twice; \<^verbatim>\<open>nan < 0.01\<close> is false, so
  no head is ever removed and every later round leaves the state as it is. The three
  text areas below lead to this mapping: the families X and Y, a stay of 3 nights
  for X and of -1 night for Y, and an expense of \<^verbatim>\<open>inf\<close> paid by Y.
\<close>

theorem settlement_loop_diverges:
  "calculate_settlements [(''X'', NInf), (''Y'', PInf)] = None \<and>
   calculate_clicked (''X:a'' @ [CHR 0x0A] @ ''Y:b'') (''a,3'' @ [CHR 0x0A] @ ''b,-1'')
     ''Y,rent,inf'' = None"
proof
  show "calculate_settlements [(''X'', NInf), (''Y'', PInf)] = None"
    by (rule diverging_balances)
  have "calculate_clicked (''X:a'' @ [CHR 0x0A] @ ''Y:b'') (''a,3'' @ [CHR 0x0A] @ ''b,-1'')
     ''Y,rent,inf'' =
    calculate (parse_families (''X:a'' @ [CHR 0x0A] @ ''Y:b''))
      (parse_stays (''a,3'' @ [CHR 0x0A] @ ''b,-1'')) (parse_expenses ''Y,rent,inf'')"
    by (simp add: calculate_clicked_def)
  then show "calculate_clicked (''X:a'' @ [CHR 0x0A] @ ''Y:b'') (''a,3'' @ [CHR 0x0A] @ ''b,-1'')
     ''Y,rent,inf'' = None"
    by (simp only: diverging_text diverging_cycle)
qed

end
